theory Spec2Isabelle
  imports Main
begin

section \<open>Python strings\<close>

text \<open>
  A Python \<open>str\<close> is a sequence of code points. It is modelled as a \<open>string\<close> whose
  characters are the code points 0x00 to 0xFF; a text with a code point above 0xFF is
  not a value of the model. On these code points the tables below are those of Python's
  \<open>str.isspace\<close>, \<open>str.isalnum\<close>, \<open>str.lower\<close> and \<open>str.upper\<close>, which are also what the \<open>re\<close>
  module uses for \<open>\s\<close>, \<open>\w\<close> and \<open>re.IGNORECASE\<close> on a \<open>str\<close> pattern.
\<close>

text \<open>\<open>str.isspace\<close>: the ASCII whitespace and separators, NEL (0x85) and the no-break
  space (0xA0).\<close>

definition is_space :: "char \<Rightarrow> bool" where
  "is_space c \<longleftrightarrow> c \<in> set [CHR 0x09, CHR 0x0A, CHR 0x0B, CHR 0x0C, CHR 0x0D,
                          CHR 0x1C, CHR 0x1D, CHR 0x1E, CHR 0x1F, CHR 0x20,
                          CHR 0x85, CHR 0xA0]"

text \<open>The letters that have the other case within the range, position by position: the
  ASCII letters, and 0xC0 to 0xDE (without the multiplication sign 0xD7) against 0xE0 to
  0xFE (without the division sign 0xF7).\<close>

definition upper_letters :: string where
  "upper_letters = ''ABCDEFGHIJKLMNOPQRSTUVWXYZ'' @
     [CHR 0xC0, CHR 0xC1, CHR 0xC2, CHR 0xC3, CHR 0xC4, CHR 0xC5, CHR 0xC6, CHR 0xC7,
      CHR 0xC8, CHR 0xC9, CHR 0xCA, CHR 0xCB, CHR 0xCC, CHR 0xCD, CHR 0xCE, CHR 0xCF,
      CHR 0xD0, CHR 0xD1, CHR 0xD2, CHR 0xD3, CHR 0xD4, CHR 0xD5, CHR 0xD6, CHR 0xD8,
      CHR 0xD9, CHR 0xDA, CHR 0xDB, CHR 0xDC, CHR 0xDD, CHR 0xDE]"

definition lower_letters :: string where
  "lower_letters = ''abcdefghijklmnopqrstuvwxyz'' @
     [CHR 0xE0, CHR 0xE1, CHR 0xE2, CHR 0xE3, CHR 0xE4, CHR 0xE5, CHR 0xE6, CHR 0xE7,
      CHR 0xE8, CHR 0xE9, CHR 0xEA, CHR 0xEB, CHR 0xEC, CHR 0xED, CHR 0xEE, CHR 0xEF,
      CHR 0xF0, CHR 0xF1, CHR 0xF2, CHR 0xF3, CHR 0xF4, CHR 0xF5, CHR 0xF6, CHR 0xF8,
      CHR 0xF9, CHR 0xFA, CHR 0xFB, CHR 0xFC, CHR 0xFD, CHR 0xFE]"

definition digits :: string where
  "digits = ''0123456789''"

text \<open>The other alphanumeric code points: the ordinal indicators 0xAA and 0xBA, the
  superscript digits 0xB2, 0xB3 and 0xB9, the micro sign 0xB5, the fractions 0xBC to
  0xBE, the sharp s 0xDF and the y with diaeresis 0xFF.\<close>

definition other_alnum :: string where
  "other_alnum = [CHR 0xAA, CHR 0xB2, CHR 0xB3, CHR 0xB5, CHR 0xB9, CHR 0xBA,
                  CHR 0xBC, CHR 0xBD, CHR 0xBE, CHR 0xDF, CHR 0xFF]"

text \<open>The lower case of a code point, as \<open>str.lower\<close> and \<open>re.IGNORECASE\<close> take it.\<close>

definition lower :: "char \<Rightarrow> char" where
  "lower c = (case map_of (zip upper_letters lower_letters) c of None \<Rightarrow> c | Some d \<Rightarrow> d)"

text \<open>\<open>str.upper\<close> of one code point, as code points: the sharp s becomes \<open>SS\<close>, and the
  upper cases of the y with diaeresis (0x178) and of the micro sign (0x39C) lie above
  0xFF.\<close>

definition upper :: "char \<Rightarrow> nat list" where
  "upper c =
     (case map_of (zip lower_letters upper_letters) c of
        Some d \<Rightarrow> [of_char d]
      | None \<Rightarrow>
          if c = CHR 0xDF then [0x53, 0x53]
          else if c = CHR 0xFF then [0x178]
          else if c = CHR 0xB5 then [0x39C]
          else [of_char c])"

text \<open>\<open>\w\<close>: alphanumeric or underscore.\<close>

definition is_word :: "char \<Rightarrow> bool" where
  "is_word c \<longleftrightarrow>
     c \<in> set upper_letters \<or> c \<in> set lower_letters \<or> c \<in> set digits \<or>
     c \<in> set other_alnum \<or> c = CHR ''_''"

text \<open>\<open>s.strip()\<close>, \<open>s.endswith(t)\<close>, \<open>t in s\<close>, \<open>sep.join(xs)\<close>, \<open>s.upper()\<close>.\<close>

definition strip :: "string \<Rightarrow> string" where
  "strip s = rev (dropWhile is_space (rev (dropWhile is_space s)))"

definition endswith :: "string \<Rightarrow> string \<Rightarrow> bool" where
  "endswith s t \<longleftrightarrow> length t \<le> length s \<and> drop (length s - length t) s = t"

definition contains :: "'a list \<Rightarrow> 'a list \<Rightarrow> bool" where
  "contains t s \<longleftrightarrow> (\<exists>i \<in> set [0..<Suc (length s)]. take (length t) (drop i s) = t)"

fun join :: "string \<Rightarrow> string list \<Rightarrow> string" where
  "join sep [] = []"
| "join sep [x] = x"
| "join sep (x # y # ys) = x @ sep @ join sep (y # ys)"

definition str_upper :: "string \<Rightarrow> nat list" where
  "str_upper s = concat (map upper s)"

text \<open>\<open>str(n)\<close> for a non-negative integer, as the f-string \<open>{attempt}\<close> prints it.\<close>

function str_nat :: "nat \<Rightarrow> string" where
  "str_nat n = (if n < 10 then [digits ! n] else str_nat (n div 10) @ [digits ! (n mod 10)])"
  by pat_completeness auto
termination
  by (relation "measure id") auto

section \<open>The fragment of Python's \<open>re\<close> the notebook uses\<close>

text \<open>
  Every pattern of the notebook is compiled with \<open>re.IGNORECASE\<close>; the two extraction
  patterns add \<open>re.DOTALL\<close>. The constructors are the pattern operators that occur:
  the empty pattern (the end of a literal word), a literal character (matched ignoring case), concatenation, ordered alternation
  \<open>a|b\<close>, the greedy option \<open>a?\<close>, the greedy repetitions \<open>c*\<close> and \<open>c+\<close> and the lazy
  repetition \<open>c*?\<close> of a character class, \<open>\b\<close>, \<open>\Z\<close>, and the capturing group.
  Repetition is only ever applied to a single character class (\<open>\s\<close>, or \<open>.\<close> under
  DOTALL).
\<close>

datatype cclass = AnyChar | Whitespace

fun in_class :: "cclass \<Rightarrow> char \<Rightarrow> bool" where
  "in_class AnyChar c = True"
| "in_class Whitespace c = is_space c"

datatype regex =
    Eps
  | Lit char
  | Cat regex regex
  | Alt regex regex
  | Opt regex
  | Star cclass
  | Plus cclass
  | LazyStar cclass
  | WordB
  | EndZ
  | Group regex

text \<open>\<open>\b\<close> at position \<open>i\<close>: exactly one of the characters before and after \<open>i\<close> is a
  word character (a missing character counts as a non-word character).\<close>

definition word_boundary :: "string \<Rightarrow> nat \<Rightarrow> bool" where
  "word_boundary s i \<longleftrightarrow>
     (0 < i \<and> i \<le> length s \<and> is_word (s ! (i - 1))) \<noteq> (i < length s \<and> is_word (s ! i))"

text \<open>The number of characters of the class that start at position \<open>i\<close>.\<close>

definition run :: "cclass \<Rightarrow> string \<Rightarrow> nat \<Rightarrow> nat" where
  "run c s i = length (takeWhile (in_class c) (drop i s))"

text \<open>
  The backtracking matcher. \<open>backtrack r s i\<close> lists, in the order in which the
  backtracking engine tries them, the ways \<open>r\<close> can match \<open>s\<close> from position \<open>i\<close>: each
  is the end position with the span of the capturing group, if the group took part.
  A greedy operator lists the longer alternative first, a lazy one the shorter.
\<close>

type_synonym span = "nat \<times> nat"

fun backtrack :: "regex \<Rightarrow> string \<Rightarrow> nat \<Rightarrow> (nat \<times> span option) list" where
  "backtrack Eps s i = [(i, None)]"
| "backtrack (Lit c) s i =
     (if i < length s \<and> lower (s ! i) = lower c then [(Suc i, None)] else [])"
| "backtrack (Cat a b) s i =
     concat (map (\<lambda>(e, g). map (\<lambda>(e', g'). (e', case g' of None \<Rightarrow> g | Some x \<Rightarrow> Some x))
                                (backtrack b s e))
                 (backtrack a s i))"
| "backtrack (Alt a b) s i = backtrack a s i @ backtrack b s i"
| "backtrack (Opt a) s i = backtrack a s i @ [(i, None)]"
| "backtrack (Star c) s i = map (\<lambda>k. (i + k, None)) (rev [0..<Suc (run c s i)])"
| "backtrack (Plus c) s i = map (\<lambda>k. (i + k, None)) (rev [1..<Suc (run c s i)])"
| "backtrack (LazyStar c) s i = map (\<lambda>k. (i + k, None)) [0..<Suc (run c s i)]"
| "backtrack WordB s i = (if word_boundary s i then [(i, None)] else [])"
| "backtrack EndZ s i = (if i = length s then [(i, None)] else [])"
| "backtrack (Group a) s i = map (\<lambda>(e, g). (e, Some (i, e))) (backtrack a s i)"

text \<open>
  \<open>re.search\<close>: the first start position, from the left, at which the pattern matches,
  with the first way the engine finds there: (start, end, group span).
\<close>

definition re_search :: "regex \<Rightarrow> string \<Rightarrow> (nat \<times> nat \<times> span option) option" where
  "re_search r s =
     (case List.find (\<lambda>i. backtrack r s i \<noteq> []) [0..<Suc (length s)] of
        None \<Rightarrow> None
      | Some i \<Rightarrow> (case backtrack r s i of [] \<Rightarrow> None | (e, g) # _ \<Rightarrow> Some (i, e, g)))"

text \<open>
  \<open>re.findall(p, s)\<close> for a pattern with one group lists the group's text of each match,
  from the left; the notebook only tests the list for emptiness and reads element 0,
  which is the group of the match \<open>re.search\<close> finds. \<open>findall_first\<close> is \<open>None\<close> when
  the list is empty and element 0 otherwise (the empty text for a group that took no
  part).
\<close>

definition slice :: "string \<Rightarrow> nat \<Rightarrow> nat \<Rightarrow> string" where
  "slice s a b = take (b - a) (drop a s)"

definition findall_first :: "regex \<Rightarrow> string \<Rightarrow> string option" where
  "findall_first r s =
     (case re_search r s of
        None \<Rightarrow> None
      | Some (i, e, g) \<Rightarrow> Some (case g of None \<Rightarrow> [] | Some (a, b) \<Rightarrow> slice s a b))"

text \<open>A word of literal characters, as a pattern.\<close>

fun lits :: "string \<Rightarrow> regex" where
  "lits [] = Eps"
| "lits (c # cs) = Cat (Lit c) (lits cs)"

section \<open>Exceptions\<close>

text \<open>
  The notebook raises \<open>ValueError\<close> itself; every other exception comes from a
  collaborator (the text-generation service, the graph database). Both carry the
  message that \<open>str(e)\<close> returns. A function that can raise returns \<open>exn + 'a\<close>.
\<close>

datatype exn = ValueError string | ServiceError string

fun str_exn :: "exn \<Rightarrow> string" where
  "str_exn (ValueError m) = m"
| "str_exn (ServiceError m) = m"

section \<open>\<open>validate_cypher_query\<close>\<close>

text \<open>The list \<open>destructive_patterns\<close>: each pattern's source text (the raised message
  quotes it) with the pattern.\<close>

definition backslash :: char where
  "backslash = CHR 0x5C"

definition keyword_pattern :: "string \<Rightarrow> string \<times> regex" where
  "keyword_pattern w = (backslash # CHR ''b'' # w @ [backslash, CHR ''b''], Cat WordB (Cat (lits w) WordB))"

definition detach_pattern :: regex where
  "detach_pattern =
     Cat WordB (Cat (lits ''DETACH'') (Cat (Plus Whitespace) (Cat (lits ''DELETE'') WordB)))"

definition destructive_patterns :: "(string \<times> regex) list" where
  "destructive_patterns =
     [keyword_pattern ''DROP'', keyword_pattern ''DELETE'', keyword_pattern ''CREATE'',
      keyword_pattern ''SET'', keyword_pattern ''REMOVE'', keyword_pattern ''MERGE'',
      (backslash # ''bDETACH'' @ backslash # ''s+DELETE'' @ [backslash, CHR ''b''], detach_pattern)]"

text \<open>The \<open>for\<close> loop over the patterns: the first pattern found in the query raises.\<close>

fun check_patterns :: "(string \<times> regex) list \<Rightarrow> string \<Rightarrow> exn + unit" where
  "check_patterns [] q = Inr ()"
| "check_patterns ((src, r) # ps) q =
     (if re_search r q \<noteq> None
      then Inl (ValueError (''Blocked potentially destructive operation: '' @ src))
      else check_patterns ps q)"

definition validate_cypher_query :: "string \<Rightarrow> exn + string" where
  "validate_cypher_query cypher_query =
     (case check_patterns destructive_patterns cypher_query of
        Inl e \<Rightarrow> Inl e
      | Inr _ \<Rightarrow>
          (let q = strip cypher_query
           in Inr (if \<not> endswith q '';'' then q @ '';'' else q)))"

section \<open>\<open>extract_cypher_from_response\<close>\<close>

definition fence :: string where
  "fence = ''```''"

text \<open>\<open>```(?:cypher|neo4j)?\s*(.*?)```\<close>\<close>

definition cypher_pattern :: regex where
  "cypher_pattern =
     Cat (lits fence)
       (Cat (Opt (Alt (lits ''cypher'') (lits ''neo4j'')))
         (Cat (Star Whitespace)
           (Cat (Group (LazyStar AnyChar)) (lits fence))))"

text \<open>\<open>(MATCH.*?(?:RETURN|;|\n\n|\Z))\<close>, with the alternatives that end the match first.\<close>

definition terminators :: regex where
  "terminators = Alt (lits ''RETURN'') (Alt (lits '';'') (Alt (lits [CHR 0x0A, CHR 0x0A]) EndZ))"

definition match_pattern :: regex where
  "match_pattern = Group (Cat (lits ''MATCH'') (Cat (LazyStar AnyChar) terminators))"

definition extract_cypher_from_response :: "string \<Rightarrow> exn + string" where
  "extract_cypher_from_response response_text =
     (case findall_first cypher_pattern response_text of
        Some m \<Rightarrow> Inr (strip m)
      | None \<Rightarrow>
          (case findall_first match_pattern response_text of
             Some m \<Rightarrow> Inr (strip m)
           | None \<Rightarrow>
               if list_ex (\<lambda>keyword. contains (map of_char keyword) (str_upper response_text))
                    [''MATCH'', ''RETURN'', ''WHERE'', ''WITH'']
               then Inr (strip response_text)
               else Inl (ValueError ''Could not extract valid Cypher query from response'')))"

section \<open>The collaborators\<close>

text \<open>
  A prompt is identified by the values the f-string interpolates into its fixed wording:
  \<open>base_prompt\<close> of \<open>generate_enhanced_cypher\<close> (question, schema and, when given, the
  previous attempts), \<open>improvement_prompt\<close> (original query, error message, schema) and
  \<open>reasoning_prompt\<close> (question, query, result rows).

  The text-generation service and the graph database are arbitrary: the answer to a
  call may depend on what is sent and on how many calls came before, and is either a
  value or a raised exception. \<open>io\<close> logs what has been sent to each of them.
\<close>

type_synonym row = "(string \<times> string) list"

datatype prompt =
    GeneratePrompt string string "string option"
  | ImprovePrompt string string string
  | ReasoningPrompt string string "row list"

type_synonym llm = "nat \<Rightarrow> prompt \<Rightarrow> exn + string"

type_synonym graph_db = "nat \<Rightarrow> string \<Rightarrow> exn + row list"

record io =
  prompts :: "prompt list"
  queries :: "string list"

definition get_openai_response :: "llm \<Rightarrow> prompt \<Rightarrow> io \<Rightarrow> (exn + string) \<times> io" where
  "get_openai_response llm p w = (llm (length (prompts w)) p, w\<lparr>prompts := prompts w @ [p]\<rparr>)"

definition graph_query :: "graph_db \<Rightarrow> string \<Rightarrow> io \<Rightarrow> (exn + row list) \<times> io" where
  "graph_query db q w = (db (length (queries w)) q, w\<lparr>queries := queries w @ [q]\<rparr>)"

section \<open>\<open>improve_cypher_with_context\<close> and \<open>generate_enhanced_cypher\<close>\<close>

text \<open>Any exception of the \<open>try\<close> block makes \<open>improve_cypher_with_context\<close> return
  \<open>None\<close>.\<close>

definition improve_cypher_with_context ::
  "llm \<Rightarrow> string \<Rightarrow> string \<Rightarrow> string \<Rightarrow> io \<Rightarrow> string option \<times> io" where
  "improve_cypher_with_context llm original_cypher error_message schema w =
     (case get_openai_response llm (ImprovePrompt original_cypher error_message schema) w of
        (Inl e, w') \<Rightarrow> (None, w')
      | (Inr response_text, w') \<Rightarrow>
          (case extract_cypher_from_response response_text of
             Inl e \<Rightarrow> (None, w')
           | Inr improved_cypher \<Rightarrow>
               (case validate_cypher_query improved_cypher of
                  Inl e \<Rightarrow> (None, w')
                | Inr v \<Rightarrow> (Some v, w'))))"

definition generation_failed :: "exn \<Rightarrow> exn" where
  "generation_failed e = ValueError (''Failed to generate valid Cypher query: '' @ str_exn e)"

text \<open>\<open>if previous_attempts:\<close> holds for a text that is neither \<open>None\<close> nor empty.\<close>

definition generate_enhanced_cypher ::
  "llm \<Rightarrow> string \<Rightarrow> string \<Rightarrow> string option \<Rightarrow> io \<Rightarrow> (exn + string) \<times> io" where
  "generate_enhanced_cypher llm question schema previous_attempts w =
     (let base_prompt =
            GeneratePrompt question schema
              (if previous_attempts \<noteq> None \<and> previous_attempts \<noteq> Some [] then previous_attempts
               else None)
      in case get_openai_response llm base_prompt w of
           (Inl e, w') \<Rightarrow> (Inl (generation_failed e), w')
         | (Inr response_text, w') \<Rightarrow>
             (case extract_cypher_from_response response_text of
                Inl e \<Rightarrow> (Inl (generation_failed e), w')
              | Inr cypher \<Rightarrow>
                  (case validate_cypher_query cypher of
                     Inl e \<Rightarrow> (Inl (generation_failed e), w')
                   | Inr v \<Rightarrow> (Inr v, w'))))"

section \<open>\<open>provide_intelligent_answer\<close>\<close>

text \<open>A data frame is the list of its rows; \<open>df.empty\<close> holds when it has no row or no
  column.\<close>

definition df_columns :: "row list \<Rightarrow> string list" where
  "df_columns df = remdups (concat (map (map fst) df))"

definition df_empty :: "row list \<Rightarrow> bool" where
  "df_empty df \<longleftrightarrow> length df = 0 \<or> length (df_columns df) = 0"

definition no_results_message :: string where
  "no_results_message =
     ''No results were found for your query. This could mean:'' @ [CHR 0x0A] @
     ''- The data you'' @ [CHR 0x27] @ ''re looking for doesn'' @ [CHR 0x27] @
     ''t exist in the database'' @ [CHR 0x0A] @
     ''- The search criteria might be too specific'' @ [CHR 0x0A] @
     ''- There might be a slight mismatch in the query logic''"

definition degraded_message :: "nat \<Rightarrow> exn \<Rightarrow> string" where
  "degraded_message num_results e =
     ''Retrieved '' @ str_nat num_results @ '' results, but couldn'' @ [CHR 0x27] @
     ''t generate detailed analysis. Error: '' @ str_exn e"

definition provide_intelligent_answer ::
  "llm \<Rightarrow> string \<Rightarrow> row list \<Rightarrow> string \<Rightarrow> io \<Rightarrow> string \<times> io" where
  "provide_intelligent_answer llm question results_df cypher_query w =
     (if df_empty results_df then (no_results_message, w)
      else
        (let num_results = length results_df
         in case get_openai_response llm (ReasoningPrompt question cypher_query results_df) w of
              (Inr ai_answer, w') \<Rightarrow> (ai_answer, w')
            | (Inl e, w') \<Rightarrow> (degraded_message num_results e, w')))"

section \<open>The retry loop of \<open>query_neo4j_with_reasoning\<close>\<close>

text \<open>
  The locals of the loop for one question. \<open>cypher\<close> is \<open>None\<close> while the name is not
  bound (\<open>'cypher' in locals()\<close> is false). The name is a local of the whole function,
  so on a later question it still holds the last query of the question before.
\<close>

record session =
  attempt :: nat
  previous_attempts :: "string list"
  cypher :: "string option"

text \<open>How the loop for one question ends: the \<open>break\<close> after a successful execution
  (with the answer shown, the rows and the query), the \<open>break\<close> after "Could not generate
  an initial query to improve", the \<open>break\<close> after the final failure report (attempt
  count, final error, last attempted query if any), or the loop condition failing.\<close>

datatype outcome =
    Answered string "row list" string
  | NoInitialQuery string
  | FinalFailure nat string "string option"
  | LoopExit

definition max_attempts :: nat where
  "max_attempts = 3"

text \<open>The \<open>try\<close> block of one iteration: the error message of the exception caught, or
  the success; the value of \<open>cypher\<close> afterwards; the log.\<close>

definition try_block ::
  "llm \<Rightarrow> graph_db \<Rightarrow> string \<Rightarrow> string \<Rightarrow> session \<Rightarrow> io \<Rightarrow> (string + outcome) \<times> string option \<times> io" where
  "try_block llm db question schema st w =
     (case generate_enhanced_cypher llm question schema
             (if previous_attempts st \<noteq> [] then Some (join [CHR 0x0A] (previous_attempts st))
              else None) w of
        (Inl e, w1) \<Rightarrow> (Inl (str_exn e), cypher st, w1)
      | (Inr c, w1) \<Rightarrow>
          (case graph_query db c w1 of
             (Inl e, w2) \<Rightarrow> (Inl (str_exn e), Some c, w2)
           | (Inr results, w2) \<Rightarrow>
               (case provide_intelligent_answer llm question
                       (if results \<noteq> [] then results else []) c w2 of
                  (ai_answer, w3) \<Rightarrow> (Inr (Answered ai_answer results c), Some c, w3))))"

definition attempt_record :: "nat \<Rightarrow> string \<Rightarrow> string \<Rightarrow> string" where
  "attempt_record n c error_msg =
     ''Attempt '' @ str_nat n @ '': '' @ c @ '' (Error: '' @ error_msg @ '')''"

text \<open>The locals after the handler's \<open>continue\<close>: the record appended, the improved query
  adopted when there is one, the attempt counted.\<close>

definition next_session :: "session \<Rightarrow> string \<Rightarrow> string \<Rightarrow> string option \<Rightarrow> session" where
  "next_session st c error_msg improved_cypher =
     \<lparr>attempt = attempt st + 1,
      previous_attempts = previous_attempts st @ [attempt_record (attempt st) c error_msg],
      cypher = (if improved_cypher \<noteq> None \<and> improved_cypher \<noteq> Some [] then improved_cypher
                else Some c)\<rparr>"

text \<open>
  The \<open>while attempt <= max_attempts\<close> loop with its \<open>except\<close> handler.
  \<open>improve_cypher_with_context\<close> raises nothing, so the inner \<open>except\<close> is never entered;
  every path through the body ends in \<open>break\<close> or \<open>continue\<close>, so the \<open>attempt += 1\<close>
  after the handler is never reached.
\<close>

function retry_loop ::
  "llm \<Rightarrow> graph_db \<Rightarrow> string \<Rightarrow> string \<Rightarrow> session \<Rightarrow> io \<Rightarrow> outcome \<times> session \<times> io" where
  "retry_loop llm db question schema st w =
     (if attempt st \<le> max_attempts then
        (case try_block llm db question schema st w of
           (Inr result, c1, w1) \<Rightarrow> (result, st\<lparr>cypher := c1\<rparr>, w1)
         | (Inl error_msg, c1, w1) \<Rightarrow>
             if attempt st < max_attempts then
               (case c1 of
                  Some c \<Rightarrow>
                    (case improve_cypher_with_context llm c error_msg schema w1 of
                       (improved_cypher, w2) \<Rightarrow>
                         retry_loop llm db question schema
                           (next_session st c error_msg improved_cypher) w2)
                | None \<Rightarrow> (NoInitialQuery error_msg, st\<lparr>cypher := c1\<rparr>, w1))
             else (FinalFailure (attempt st) error_msg c1, st\<lparr>cypher := c1\<rparr>, w1))
      else (LoopExit, st, w))"
  by pat_completeness auto
termination
  by (relation "measure (\<lambda>(llm, db, question, schema, st, w). max_attempts + 1 - attempt st)")
     (auto simp: max_attempts_def next_session_def)

text \<open>One question: \<open>attempt = 1\<close>, \<open>previous_attempts = []\<close>, and \<open>cypher\<close> as the
  questions before left it.\<close>

definition run_question ::
  "llm \<Rightarrow> graph_db \<Rightarrow> string \<Rightarrow> string \<Rightarrow> string option \<Rightarrow> io \<Rightarrow> outcome \<times> session \<times> io" where
  "run_question llm db question schema cypher0 w =
     retry_loop llm db question schema
       \<lparr>attempt = 1, previous_attempts = [], cypher = cypher0\<rparr> w"

text \<open>
  The outer \<open>while True\<close> loop, on the lines that \<open>input\<close> returns one after the other
  (when they run out, \<open>input\<close> raises \<open>EOFError\<close> and the function ends): a line that is
  \<open>exit\<close>, \<open>quit\<close> or \<open>q\<close> in any letter case ends the loop, an empty line is skipped, and
  every other line is a question. The result lists how each question ended. Nothing
  resets \<open>cypher\<close> between two questions.
\<close>

fun question_loop ::
  "llm \<Rightarrow> graph_db \<Rightarrow> string \<Rightarrow> string list \<Rightarrow> string option \<Rightarrow> io \<Rightarrow>
     outcome list \<times> string option \<times> io" where
  "question_loop llm db schema [] c w = ([], c, w)"
| "question_loop llm db schema (line # lines) c w =
     (let question = strip line
      in if map lower question \<in> set [''exit'', ''quit'', ''q''] then ([], c, w)
         else if question = [] then question_loop llm db schema lines c w
         else
           (case run_question llm db question schema c w of
              (out, st', w') \<Rightarrow>
                (case question_loop llm db schema lines (cypher st') w' of
                   (outs, c', w'') \<Rightarrow> (out # outs, c', w''))))"

text \<open>\<open>query_neo4j_with_reasoning\<close> with the schema it loaded: no local is bound when
  the first question is read.\<close>

definition query_neo4j_with_reasoning ::
  "llm \<Rightarrow> graph_db \<Rightarrow> string \<Rightarrow> string list \<Rightarrow> io \<Rightarrow> outcome list \<times> string option \<times> io" where
  "query_neo4j_with_reasoning llm db schema lines w = question_loop llm db schema lines None w"

section \<open>Scripted collaborators\<close>

text \<open>Collaborators that answer their \<open>n\<close>-th call with the \<open>n\<close>-th entry of a script, and
  fail once the script is used up; they instantiate the theorems below.\<close>

definition scripted_llm :: "(exn + string) list \<Rightarrow> llm" where
  "scripted_llm script n p =
     (if n < length script then script ! n else Inl (ServiceError ''no answer''))"

definition scripted_db :: "(exn + row list) list \<Rightarrow> graph_db" where
  "scripted_db script n q =
     (if n < length script then script ! n else Inl (ServiceError ''no answer''))"

text \<open>A text-generation service that gives one fixed answer to every generation prompt
  and one to every repair prompt.\<close>

definition answering_llm :: "exn + string \<Rightarrow> exn + string \<Rightarrow> llm" where
  "answering_llm generated repaired n p =
     (case p of
        GeneratePrompt question schema previous \<Rightarrow> generated
      | ImprovePrompt original error_message schema \<Rightarrow> repaired
      | ReasoningPrompt question query rows \<Rightarrow> Inl (ServiceError ''no answer''))"

definition io0 :: io where
  "io0 = \<lparr>prompts = [], queries = []\<rparr>"

section \<open>Vocabulary of the properties\<close>

text \<open>The word \<open>w\<close> stands in \<open>s\<close> at position \<open>i\<close>, in any letter case.\<close>

definition ci_at :: "string \<Rightarrow> string \<Rightarrow> nat \<Rightarrow> bool" where
  "ci_at w s i \<longleftrightarrow> map lower (take (length w) (drop i s)) = map lower w"

text \<open>A pattern \<open>\bw\b\<close> matches at \<open>i\<close>.\<close>

definition kw_match :: "string \<Rightarrow> string \<Rightarrow> nat \<Rightarrow> bool" where
  "kw_match w s i \<longleftrightarrow> word_boundary s i \<and> ci_at w s i \<and> word_boundary s (i + length w)"

text \<open>The single denylisted keywords, and a keyword standing on its own at position \<open>i\<close>:
  in any letter case, with no word character right before or right after it.\<close>

definition denylist :: "string list" where
  "denylist = [''DROP'', ''DELETE'', ''CREATE'', ''SET'', ''REMOVE'', ''MERGE'']"

definition keyword_at :: "string \<Rightarrow> string \<Rightarrow> nat \<Rightarrow> bool" where
  "keyword_at w s i \<longleftrightarrow>
     ci_at w s i \<and> (i = 0 \<or> \<not> is_word (s ! (i - 1))) \<and>
     (i + length w = length s \<or> \<not> is_word (s ! (i + length w)))"

definition has_keyword :: "string \<Rightarrow> string \<Rightarrow> bool" where
  "has_keyword w s \<longleftrightarrow> (\<exists>i \<in> set [0..<Suc (length s)]. keyword_at w s i)"

text \<open>\<open>DETACH DELETE\<close> at position \<open>i\<close>: the two words in any letter case, separated by one or
  more whitespace characters, with no word character right before or right after.\<close>

definition detach_delete_at :: "string \<Rightarrow> nat \<Rightarrow> bool" where
  "detach_delete_at s i \<longleftrightarrow>
     (\<exists>k \<in> set [1..<Suc (length s)].
        ci_at ''DETACH'' s i \<and> (i = 0 \<or> \<not> is_word (s ! (i - 1))) \<and>
        (\<forall>j \<in> set [0..<k]. i + 6 + j < length s \<and> is_space (s ! (i + 6 + j))) \<and>
        keyword_at ''DELETE'' s (i + 6 + k))"

text \<open>The query contains a denylisted mutating operation.\<close>

definition mutating :: "string \<Rightarrow> bool" where
  "mutating s \<longleftrightarrow>
     (\<exists>w \<in> set denylist. has_keyword w s) \<or>
     (\<exists>i \<in> set [0..<Suc (length s)]. detach_delete_at s i)"

text \<open>No whitespace at either end; and the clean-up \<open>validate_cypher_query\<close> applies to a
  query it accepts.\<close>

definition no_surrounding_space :: "string \<Rightarrow> bool" where
  "no_surrounding_space s \<longleftrightarrow> s = [] \<or> (\<not> is_space (hd s) \<and> \<not> is_space (last s))"

definition normalised :: "string \<Rightarrow> string" where
  "normalised s = (if \<not> endswith (strip s) '';'' then strip s @ '';'' else strip s)"

text \<open>The extraction patterns: the position right after the optional tag that follows an
  opening fence at \<open>i - 3\<close>; a fence tag that the pattern reads as such (\<open>cypher\<close> or \<open>neo4j\<close>
  in any letter case, or none, and then the contents do not begin with one of the two
  words); the first occurrence of a word; and a position at which the lazy \<open>.*?\<close> of
  \<open>match_pattern\<close> stops.\<close>

definition tag_end :: "string \<Rightarrow> nat \<Rightarrow> nat" where
  "tag_end s i = (if ci_at ''cypher'' s i then i + 6 else if ci_at ''neo4j'' s i then i + 5 else i)"

definition tag_ok :: "string \<Rightarrow> string \<Rightarrow> bool" where
  "tag_ok tag X \<longleftrightarrow>
     map lower tag = ''cypher'' \<or> map lower tag = ''neo4j'' \<or>
     (tag = [] \<and> \<not> ci_at ''cypher'' X 0 \<and> \<not> ci_at ''neo4j'' X 0)"

definition first_ci_at :: "string \<Rightarrow> string \<Rightarrow> nat \<Rightarrow> bool" where
  "first_ci_at w s i \<longleftrightarrow> ci_at w s i \<and> (\<forall>j \<in> set [0..<i]. \<not> ci_at w s j)"

definition terminator_at :: "string \<Rightarrow> nat \<Rightarrow> bool" where
  "terminator_at s j \<longleftrightarrow>
     ci_at ''RETURN'' s j \<or> ci_at '';'' s j \<or> ci_at [CHR 0x0A, CHR 0x0A] s j \<or> j = length s"

section \<open>The matcher on literal words and keyword patterns\<close>

lemma ci_at_Nil [simp]: "ci_at [] s i"
  by (simp add: ci_at_def)

lemma ci_at_Cons:
  "ci_at (c # cs) s i \<longleftrightarrow> i < length s \<and> lower (s ! i) = lower c \<and> ci_at cs s (Suc i)"
proof (cases "i < length s")
  case True
  then have "drop i s = s ! i # drop (Suc i) s" by (simp add: Cons_nth_drop_Suc)
  then show ?thesis using True by (simp add: ci_at_def)
next
  case False
  then show ?thesis by (simp add: ci_at_def)
qed

lemma ci_at_length: "ci_at w s i \<Longrightarrow> w \<noteq> [] \<Longrightarrow> i + length w \<le> length s"
proof -
  assume "ci_at w s i" and w: "w \<noteq> []"
  then have "length (map lower (take (length w) (drop i s))) = length (map lower w)"
    unfolding ci_at_def by simp
  then show ?thesis using w by (cases w) auto
qed

lemma ci_at_nth:
  "ci_at w s i \<Longrightarrow> k < length w \<Longrightarrow> lower (s ! (i + k)) = lower (w ! k)"
proof -
  assume a: "ci_at w s i" and k: "k < length w"
  from k have w: "w \<noteq> []" by auto
  from ci_at_length[OF a w] k have "i + k < length s" by simp
  have "map lower (take (length w) (drop i s)) ! k = map lower w ! k"
    using a by (simp add: ci_at_def)
  then show ?thesis using k \<open>i + k < length s\<close> ci_at_length[OF a w] by simp
qed

lemma backtrack_lits:
  "backtrack (lits w) s i = (if ci_at w s i then [(i + length w, None)] else [])"
  by (induction w arbitrary: i) (auto simp: ci_at_Cons)

declare lits.simps [simp del]

lemma backtrack_Cat_nonempty:
  "backtrack (Cat a b) s i \<noteq> [] \<longleftrightarrow> (\<exists>p \<in> set (backtrack a s i). backtrack b s (fst p) \<noteq> [])"
  by (auto simp: split_def)

lemma set_backtrack_Plus:
  "set (backtrack (Plus c) s i) = {(i + k, None) | k. 1 \<le> k \<and> k \<le> run c s i}"
  by (auto simp del: upt_Suc)

lemma find_upt_Some:
  "List.find P [0..<n] = Some i \<longleftrightarrow> i < n \<and> P i \<and> (\<forall>j<i. \<not> P j)"
  by (auto simp: find_Some_iff simp del: upt_Suc)

lemma find_upt_None: "List.find P [0..<n] = None \<longleftrightarrow> (\<forall>i<n. \<not> P i)"
  by (auto simp: find_None_iff simp del: upt_Suc)

lemma re_search_None:
  "re_search r s = None \<longleftrightarrow> (\<forall>i \<le> length s. backtrack r s i = [])"
proof (cases "List.find (\<lambda>i. backtrack r s i \<noteq> []) [0..<Suc (length s)]")
  case None
  then have "\<forall>i \<le> length s. backtrack r s i = []"
    by (simp add: find_upt_None less_Suc_eq_le del: upt_Suc)
  with None show ?thesis by (simp add: re_search_def del: upt_Suc)
next
  case (Some i)
  then have i: "backtrack r s i \<noteq> []" "i \<le> length s"
    by (simp_all add: find_upt_Some less_Suc_eq_le del: upt_Suc)
  then obtain e g rest where "backtrack r s i = (e, g) # rest"
    by (cases "backtrack r s i") auto
  with Some i show ?thesis by (auto simp: re_search_def simp del: upt_Suc)
qed

lemma re_search_first:
  assumes "i \<le> length s" "backtrack r s i = (e, g) # rest" "\<forall>j<i. backtrack r s j = []"
  shows "re_search r s = Some (i, e, g)"
proof -
  have "List.find (\<lambda>i. backtrack r s i \<noteq> []) [0..<Suc (length s)] = Some i"
    using assms by (simp add: find_upt_Some less_Suc_eq_le del: upt_Suc)
  then show ?thesis using assms(2) by (simp add: re_search_def del: upt_Suc)
qed

lemma backtrack_keyword:
  "backtrack (snd (keyword_pattern w)) s i = [] \<longleftrightarrow> \<not> kw_match w s i"
  by (auto simp: keyword_pattern_def backtrack_lits kw_match_def split_def)

lemma lower_cases:
  obtains (same) "lower c = c" "c \<notin> set upper_letters"
  | (letter) "c \<in> set upper_letters" "lower c \<in> set lower_letters"
proof (cases "map_of (zip upper_letters lower_letters) c")
  case None
  have "length upper_letters = length lower_letters"
    by (simp add: upper_letters_def lower_letters_def)
  with None have "c \<notin> set upper_letters" by (simp add: map_of_zip_is_None)
  moreover from None have "lower c = c" by (simp add: lower_def)
  ultimately show ?thesis by (intro same)
next
  case (Some d)
  then have "(c, d) \<in> set (zip upper_letters lower_letters)" by (rule map_of_SomeD)
  then have "c \<in> set upper_letters" "d \<in> set lower_letters"
    by (auto dest: set_zip_leftD set_zip_rightD)
  moreover from Some have "lower c = d" by (simp add: lower_def)
  ultimately show ?thesis by (auto intro: letter)
qed

lemma is_word_lower [simp]: "is_word (lower c) \<longleftrightarrow> is_word c"
  by (cases c rule: lower_cases) (simp_all add: is_word_def)

lemma letters_not_space:
  "\<forall>c \<in> set upper_letters. \<not> is_space c" "\<forall>c \<in> set lower_letters. \<not> is_space c"
  by (simp_all add: upper_letters_def lower_letters_def is_space_def)

lemma letters_not_backtick:
  "CHR 0x60 \<notin> set upper_letters" "CHR 0x60 \<notin> set lower_letters"
  by (simp_all add: upper_letters_def lower_letters_def)

lemma space_not_word: "is_space c \<Longrightarrow> \<not> is_word c"
  by (auto simp: is_space_def is_word_def upper_letters_def lower_letters_def digits_def other_alnum_def)

lemma is_space_lower [simp]: "is_space (lower c) \<longleftrightarrow> is_space c"
  using letters_not_space by (cases c rule: lower_cases) auto

lemma ci_at_word:
  assumes "ci_at w s i" "k < length w" "is_word (w ! k)"
  shows "is_word (s ! (i + k))"
proof -
  have "is_word (lower (s ! (i + k)))"
    using ci_at_nth[OF assms(1,2)] assms(3) by simp
  then show ?thesis by simp
qed

lemma run_less:
  assumes "k < run c s i"
  shows "i + k < length s \<and> in_class c (s ! (i + k))"
proof -
  let ?t = "takeWhile (in_class c) (drop i s)"
  from assms have k: "k < length ?t" by (simp add: run_def)
  then have "?t ! k \<in> set ?t" by simp
  then have p: "in_class c (?t ! k)" by (meson set_takeWhileD)
  have "length ?t \<le> length (drop i s)" by (rule length_takeWhile_le)
  with k have kk: "k < length (drop i s)" by simp
  then have "i + k < length s" by simp
  moreover have "?t ! k = drop i s ! k" using k by (rule takeWhile_nth)
  ultimately show ?thesis using p by simp
qed

lemma kw_match_iff:
  assumes w: "w \<noteq> []" "\<forall>c \<in> set w. is_word c"
  shows "kw_match w s i \<longleftrightarrow> keyword_at w s i"
proof (cases "ci_at w s i")
  case False
  then show ?thesis by (simp add: kw_match_def keyword_at_def)
next
  case True
  from ci_at_length[OF True w(1)] have len: "i + length w \<le> length s" .
  have first: "is_word (s ! i)"
    using ci_at_word[OF True, of 0] w by (cases w) auto
  have "is_word (w ! (length w - 1))" using w by simp
  then have "is_word (s ! (i + (length w - 1)))"
    using ci_at_word[OF True, of "length w - 1"] w by simp
  then have lastc: "is_word (s ! (i + length w - 1))" using w(1) by (cases w) auto
  have lt: "i < length s" using len w(1) by (cases w) auto
  have b1: "word_boundary s i \<longleftrightarrow> (i = 0 \<or> \<not> is_word (s ! (i - 1)))"
    using first lt by (auto simp: word_boundary_def)
  have b2: "word_boundary s (i + length w) \<longleftrightarrow>
              (i + length w = length s \<or> \<not> is_word (s ! (i + length w)))"
    using lastc len w(1) by (auto simp: word_boundary_def)
  show ?thesis using True b1 b2 by (simp add: kw_match_def keyword_at_def)
qed

lemma denylist_words: "w \<in> set denylist \<Longrightarrow> w \<noteq> [] \<and> (\<forall>c \<in> set w. is_word c)"
  by (auto simp: denylist_def is_word_def upper_letters_def)

lemma has_keyword_iff:
  "w \<in> set denylist \<Longrightarrow> has_keyword w s \<longleftrightarrow> (\<exists>i \<le> length s. kw_match w s i)"
  using kw_match_iff[of w s] denylist_words[of w]
  by (auto simp: has_keyword_def less_Suc_eq_le simp del: upt_Suc)

lemma re_search_keyword:
  "w \<in> set denylist \<Longrightarrow> re_search (snd (keyword_pattern w)) s = None \<longleftrightarrow> \<not> has_keyword w s"
  by (simp add: re_search_None backtrack_keyword has_keyword_iff)

lemma merge_group_None:
  "map (\<lambda>(e', g'). (e', case g' of None \<Rightarrow> None | Some x \<Rightarrow> Some x)) xs = xs"
  by (induction xs) (auto split: option.splits)

lemma backtrack_Cat_lits:
  "backtrack (Cat (lits w) b) s i = (if ci_at w s i then backtrack b s (i + length w) else [])"
  by (simp add: backtrack_lits merge_group_None)

lemma backtrack_Cat_WordB:
  "backtrack (Cat WordB b) s i = (if word_boundary s i then backtrack b s i else [])"
  by (simp add: merge_group_None)

declare backtrack.simps(3) [simp del]

lemma spaced_words_second:
  assumes m: "backtrack (Cat WordB (Cat (lits w1) (Cat (Plus Whitespace) (Cat (lits w2) WordB)))) s i \<noteq> []"
    and w2: "w2 \<noteq> []" "is_word (hd w2)"
  shows "\<exists>j \<le> length s. kw_match w2 s j"
proof -
  let ?i = "i + length w1"
  from m have "backtrack (Cat (Plus Whitespace) (Cat (lits w2) WordB)) s ?i \<noteq> []"
    by (simp add: backtrack_Cat_lits backtrack_Cat_WordB split: if_splits)
  then have "\<exists>p \<in> set (backtrack (Plus Whitespace) s ?i).
               backtrack (Cat (lits w2) WordB) s (fst p) \<noteq> []"
    by (simp only: backtrack_Cat_nonempty)
  then obtain k where k: "1 \<le> k" "k \<le> run Whitespace s ?i"
      and n: "backtrack (Cat (lits w2) WordB) s (?i + k) \<noteq> []"
    unfolding set_backtrack_Plus by auto
  from n have d: "ci_at w2 s (?i + k)" and b: "word_boundary s (?i + k + length w2)"
    by (simp_all add: backtrack_Cat_lits split: if_splits)
  from k have "k - 1 < run Whitespace s ?i" by simp
  from run_less[OF this] k(1) have sp: "?i + k - 1 < length s" "is_space (s ! (?i + k - 1))"
    by (simp_all add: add.assoc)
  have dw: "is_word (s ! (?i + k))"
    using ci_at_word[OF d, of 0] w2 by (cases w2) auto
  from ci_at_length[OF d w2(1)] have len: "?i + k + length w2 \<le> length s" .
  then have lt: "?i + k < length s" using w2(1) by (cases w2) auto
  have "word_boundary s (?i + k)"
    using sp dw lt k(1) space_not_word[OF sp(2)] by (auto simp: word_boundary_def)
  with d b have "kw_match w2 s (?i + k)" by (simp add: kw_match_def)
  moreover have "?i + k \<le> length s" using lt by simp
  ultimately show ?thesis by blast
qed

lemma detach_pattern_delete:
  assumes "backtrack detach_pattern s i \<noteq> []"
  shows "\<exists>j \<le> length s. kw_match ''DELETE'' s j"
  using assms unfolding detach_pattern_def
  by (rule spaced_words_second) (simp_all add: is_word_def upper_letters_def)

lemma detach_delete_at_delete:
  assumes "detach_delete_at s i"
  shows "has_keyword ''DELETE'' s"
proof -
  from assms obtain k where "keyword_at ''DELETE'' s (i + 6 + k)"
    by (auto simp: detach_delete_at_def simp del: upt_Suc)
  moreover from this have "i + 6 + k + 6 \<le> length s"
    using ci_at_length[of "''DELETE''" s "i + 6 + k"] by (simp add: keyword_at_def)
  ultimately show ?thesis
    by (auto simp: has_keyword_def less_Suc_eq_le simp del: upt_Suc intro!: bexI[of _ "i + 6 + k"])
qed

lemma mutating_iff: "mutating s \<longleftrightarrow> (\<exists>w \<in> set denylist. has_keyword w s)"
  using detach_delete_at_delete[of s] by (auto simp: mutating_def denylist_def simp del: upt_Suc)

lemma check_patterns_Inr:
  "check_patterns ps s = Inr u \<longleftrightarrow> (\<forall>p \<in> set ps. re_search (snd p) s = None)"
proof (induction ps)
  case Nil
  then show ?case by simp
next
  case (Cons p ps)
  obtain src r where p: "p = (src, r)" by (cases p)
  show ?case using Cons.IH by (cases "re_search r s") (auto simp: p)
qed

lemma check_patterns_Inl: "check_patterns ps s = Inl e \<Longrightarrow> \<exists>m. e = ValueError m"
  by (induction ps) (auto split: if_splits)

lemma destructive_patterns_eq:
  "destructive_patterns =
     map keyword_pattern denylist @
     [(backslash # ''bDETACH'' @ backslash # ''s+DELETE'' @ [backslash, CHR ''b''], detach_pattern)]"
  by (simp add: destructive_patterns_def denylist_def)

lemma check_destructive:
  "check_patterns destructive_patterns s = Inr () \<longleftrightarrow> \<not> mutating s"
proof -
  have del: "''DELETE'' \<in> set denylist" by (simp add: denylist_def)
  have "re_search detach_pattern s = None" if no: "\<not> has_keyword ''DELETE'' s"
  proof -
    have "backtrack detach_pattern s i = []" for i
    proof (rule ccontr)
      assume "backtrack detach_pattern s i \<noteq> []"
      from detach_pattern_delete[OF this] no show False
        by (simp add: has_keyword_iff[OF del])
    qed
    then show ?thesis by (simp add: re_search_None)
  qed
  with del show ?thesis
    by (auto simp: check_patterns_Inr destructive_patterns_eq mutating_iff re_search_keyword)
qed

lemma endswith_single: "endswith s [c] \<longleftrightarrow> s \<noteq> [] \<and> last s = c"
proof (cases s rule: rev_cases)
  case Nil
  then show ?thesis by (simp add: endswith_def)
next
  case (snoc ys y)
  then show ?thesis by (auto simp: endswith_def)
qed

lemma validate_Inr_iff:
  "validate_cypher_query s = Inr r \<longleftrightarrow> \<not> mutating s \<and> r = normalised s"
proof (cases "check_patterns destructive_patterns s")
  case (Inl e)
  then have "mutating s" using check_destructive[of s] by auto
  with Inl show ?thesis by (simp add: validate_cypher_query_def)
next
  case (Inr u)
  then have "\<not> mutating s" using check_destructive[of s] by simp
  with Inr show ?thesis by (auto simp: validate_cypher_query_def normalised_def Let_def)
qed

lemma validate_Inl:
  assumes "mutating s"
  shows "\<exists>m. validate_cypher_query s = Inl (ValueError m)"
proof (cases "check_patterns destructive_patterns s")
  case (Inl e)
  with check_patterns_Inl[OF Inl] show ?thesis by (auto simp: validate_cypher_query_def)
next
  case (Inr u)
  with assms check_destructive[of s] show ?thesis by simp
qed

lemma endswith_normalised: "endswith (normalised s) '';''"
  by (auto simp: normalised_def endswith_single)

lemma word_boundary_Cons:
  "\<not> is_word c \<Longrightarrow> word_boundary (c # s) (Suc i) = word_boundary s i"
  by (cases i) (auto simp: word_boundary_def)

lemma ci_at_Cons_shift: "ci_at w (c # s) (Suc i) = ci_at w s i"
  by (simp add: ci_at_def)

lemma kw_match_Cons: "\<not> is_word c \<Longrightarrow> kw_match w (c # s) (Suc i) = kw_match w s i"
  using word_boundary_Cons[of c s i] word_boundary_Cons[of c s "i + length w"]
  by (simp add: kw_match_def ci_at_Cons_shift)

lemma kw_match_prepend:
  "\<forall>c \<in> set L. \<not> is_word c \<Longrightarrow> kw_match w (L @ s) (length L + i) = kw_match w s i"
  by (induction L) (simp_all add: kw_match_Cons)

lemma word_boundary_snoc:
  "\<not> is_word c \<Longrightarrow> k \<le> length s \<Longrightarrow> word_boundary (s @ [c]) k = word_boundary s k"
  by (auto simp: word_boundary_def nth_append)

lemma ci_at_append: "i + length w \<le> length s \<Longrightarrow> ci_at w (s @ t) i = ci_at w s i"
  by (simp add: ci_at_def)

lemma kw_match_snoc:
  assumes "\<not> is_word c" "w \<noteq> []" "kw_match w s i"
  shows "kw_match w (s @ [c]) i"
proof -
  from assms(3) have c: "ci_at w s i" by (simp add: kw_match_def)
  from ci_at_length[OF c assms(2)] have len: "i + length w \<le> length s" .
  then show ?thesis
    using assms word_boundary_snoc[OF assms(1), of i s]
      word_boundary_snoc[OF assms(1), of "i + length w" s] ci_at_append[OF len, of "[c]"]
    by (simp add: kw_match_def)
qed

lemma kw_match_append:
  "\<forall>c \<in> set T. \<not> is_word c \<Longrightarrow> w \<noteq> [] \<Longrightarrow> kw_match w s i \<Longrightarrow> kw_match w (s @ T) i"
proof (induction T arbitrary: s)
  case Nil
  then show ?case by simp
next
  case (Cons c T)
  then have "kw_match w (s @ [c]) i" by (simp add: kw_match_snoc)
  then have "kw_match w ((s @ [c]) @ T) i"
    using Cons.IH[of "s @ [c]"] Cons.prems by simp
  then show ?case by simp
qed

lemma kw_match_snoc_drop:
  assumes c: "\<not> is_word c" and w: "w \<noteq> []" "\<forall>c \<in> set w. is_word c"
    and m: "kw_match w (s @ [c]) i"
  shows "kw_match w s i"
proof -
  from m have ci: "ci_at w (s @ [c]) i" by (simp add: kw_match_def)
  from ci_at_length[OF ci w(1)] have le: "i + length w \<le> Suc (length s)" by simp
  have "i + length w \<noteq> Suc (length s)"
  proof
    assume e: "i + length w = Suc (length s)"
    have "is_word ((s @ [c]) ! (i + (length w - 1)))"
      using ci_at_word[OF ci, of "length w - 1"] w by simp
    moreover have "i + (length w - 1) = length s" using e w(1) by (cases w) auto
    ultimately show False using c by simp
  qed
  with le have len: "i + length w \<le> length s" by simp
  then show ?thesis
    using m word_boundary_snoc[OF c, of i s]
      word_boundary_snoc[OF c, of "i + length w" s] ci_at_append[OF len, of "[c]"]
    by (simp add: kw_match_def)
qed

lemma strip_decomp:
  "\<exists>L T. s = L @ strip s @ T \<and> (\<forall>c \<in> set L. is_space c) \<and> (\<forall>c \<in> set T. is_space c)"
proof -
  let ?s1 = "dropWhile is_space s"
  let ?L = "takeWhile is_space s"
  let ?T = "rev (takeWhile is_space (rev ?s1))"
  have "strip s @ ?T = rev (takeWhile is_space (rev ?s1) @ dropWhile is_space (rev ?s1))"
    by (simp only: strip_def rev_append)
  also have "\<dots> = rev (rev ?s1)" by (simp only: takeWhile_dropWhile_id)
  finally have "?s1 = strip s @ ?T" by simp
  moreover have "s = ?L @ ?s1" by simp
  ultimately have "s = ?L @ strip s @ ?T" by simp
  moreover have "\<forall>c \<in> set ?L. is_space c" by (auto dest: set_takeWhileD)
  moreover have "\<forall>c \<in> set ?T. is_space c" by (auto dest: set_takeWhileD)
  ultimately show ?thesis by blast
qed

lemma has_keyword_strip:
  assumes w: "w \<in> set denylist" and h: "has_keyword w (strip s)"
  shows "has_keyword w s"
proof -
  from denylist_words[OF w] have ne: "w \<noteq> []" by simp
  from h obtain i where i: "kw_match w (strip s) i"
    by (auto simp: has_keyword_iff[OF w])
  from strip_decomp[of s] obtain L T where s: "s = L @ strip s @ T"
    and Ls: "\<forall>c \<in> set L. is_space c" and Ts: "\<forall>c \<in> set T. is_space c"
    by blast
  from Ls have L: "\<forall>c \<in> set L. \<not> is_word c" using space_not_word by blast
  from Ts have T: "\<forall>c \<in> set T. \<not> is_word c" using space_not_word by blast
  from kw_match_append[OF T ne i] have "kw_match w (strip s @ T) i" .
  then have "kw_match w (L @ strip s @ T) (length L + i)"
    by (simp add: kw_match_prepend[OF L])
  then have m: "kw_match w s (length L + i)" using s by simp
  then have "ci_at w s (length L + i)" by (simp add: kw_match_def)
  from ci_at_length[OF this ne] have "length L + i \<le> length s" by simp
  with m show ?thesis by (auto simp: has_keyword_iff[OF w])
qed

lemma has_keyword_snoc:
  assumes w: "w \<in> set denylist" and c: "\<not> is_word c" and h: "has_keyword w (q @ [c])"
  shows "has_keyword w q"
proof -
  from denylist_words[OF w] have ne: "w \<noteq> []" and ws: "\<forall>c \<in> set w. is_word c" by simp_all
  from h obtain i where i: "kw_match w (q @ [c]) i"
    by (auto simp: has_keyword_iff[OF w])
  from kw_match_snoc_drop[OF c ne ws i] have m: "kw_match w q i" .
  then have "ci_at w q i" by (simp add: kw_match_def)
  from ci_at_length[OF this ne] have "i \<le> length q" by simp
  with m show ?thesis by (auto simp: has_keyword_iff[OF w])
qed

lemma mutating_normalised: "mutating (normalised s) \<Longrightarrow> mutating s"
proof -
  assume "mutating (normalised s)"
  then obtain w where w: "w \<in> set denylist" and h: "has_keyword w (normalised s)"
    by (auto simp: mutating_iff)
  have semi: "\<not> is_word CHR '';''"
    by (simp add: is_word_def upper_letters_def lower_letters_def digits_def other_alnum_def)
  have "has_keyword w (strip s)"
    using h has_keyword_snoc[OF w semi, of "strip s"] by (auto simp: normalised_def split: if_splits)
  from has_keyword_strip[OF w this] w show ?thesis by (auto simp: mutating_iff)
qed

lemma strip_id: "no_surrounding_space s \<Longrightarrow> strip s = s"
proof (cases s)
  case Nil
  then show ?thesis by (simp add: strip_def)
next
  case (Cons a as)
  assume "no_surrounding_space s"
  with Cons have h: "\<not> is_space (hd s)" "\<not> is_space (last s)" "s \<noteq> []"
    by (auto simp: no_surrounding_space_def)
  then have 1: "dropWhile is_space s = s" by (cases s) auto
  from h have "\<not> is_space (hd (rev s))" by (simp add: hd_rev)
  with h(3) have "dropWhile is_space (rev s) = rev s" by (cases "rev s") auto
  with 1 show ?thesis by (simp add: strip_def)
qed

lemma strip_ends: "no_surrounding_space (strip s)"
proof (cases "strip s = []")
  case True
  then show ?thesis by (simp add: no_surrounding_space_def)
next
  case False
  let ?s1 = "dropWhile is_space s"
  let ?d = "dropWhile is_space (rev ?s1)"
  have st: "strip s = rev ?d" by (simp add: strip_def)
  with False have d: "?d \<noteq> []" by simp
  then have "\<not> is_space (hd ?d)" by (rule hd_dropWhile)
  then have l: "\<not> is_space (last (strip s))" using d st by (simp add: last_rev)
  have s1: "?s1 \<noteq> []"
  proof
    assume a: "?s1 = []"
    have "?d = []" unfolding a by simp
    with d show False by simp
  qed
  have "rev ?s1 = takeWhile is_space (rev ?s1) @ ?d" by simp
  then have "last (rev ?s1) = last ?d" using d by (metis last_appendR)
  then have "hd ?s1 = last ?d" using s1 by (simp add: last_rev)
  moreover have "\<not> is_space (hd ?s1)" using s1 by (rule hd_dropWhile)
  ultimately have "\<not> is_space (hd (strip s))" using d st by (simp add: hd_rev)
  with l show ?thesis by (simp add: no_surrounding_space_def)
qed

lemma normalised_fixed: "normalised (normalised s) = normalised s"
proof -
  have semi: "\<not> is_space CHR '';''" by (simp add: is_space_def)
  have "no_surrounding_space (normalised s)"
  proof (cases "endswith (strip s) '';''")
    case True
    then show ?thesis using strip_ends[of s] by (simp add: normalised_def)
  next
    case False
    then have n: "normalised s = strip s @ '';''" by (simp add: normalised_def)
    show ?thesis
    proof (cases "strip s")
      case Nil
      with n semi show ?thesis by (simp add: no_surrounding_space_def)
    next
      case (Cons a as)
      with strip_ends[of s] have "\<not> is_space a" by (simp add: no_surrounding_space_def)
      with n semi Cons show ?thesis by (simp add: no_surrounding_space_def)
    qed
  qed
  from strip_id[OF this] endswith_normalised[of s] show ?thesis
    by (simp add: normalised_def[of "normalised s"])
qed

text \<open>Code points beyond ASCII: \<open>e\<close> with acute accent (0xE9) is a word character, so no
  word boundary stands between it and a keyword; the no-break space (0xA0) and NEL (0x85)
  are whitespace, stripped at the ends and a boundary next to a keyword.\<close>

lemma validate_beyond_ascii:
  "validate_cypher_query (CHR 0xE9 # ''DROP x'') = Inr (CHR 0xE9 # ''DROP x;'')"
  "validate_cypher_query (CHR 0xA0 # ''RETURN 1'' @ [CHR 0xA0]) = Inr ''RETURN 1;''"
  "validate_cypher_query (''x '' @ [CHR 0xA0] @ ''drop'' @ [CHR 0x85] @ ''y'')
     = Inl (ValueError (''Blocked potentially destructive operation: '' @ fst (keyword_pattern ''DROP'')))"
  by code_simp+

section \<open>The matcher on the extraction patterns\<close>

lemma concat_map_upt_first:
  assumes "\<forall>k<k0. f k = []" "k0 < n"
  shows "concat (map f [0..<n]) = f k0 @ concat (map f [Suc k0..<n])"
proof -
  have n: "n = k0 + (n - k0)" using assms(2) by simp
  have "[0..<k0 + (n - k0)] = [0..<k0] @ [k0..<k0 + (n - k0)]"
    by (rule upt_add_eq_append) simp
  moreover have "[k0..<k0 + (n - k0)] = k0 # [Suc k0..<k0 + (n - k0)]"
    by (rule upt_conv_Cons) (use assms(2) in simp)
  ultimately have "[0..<n] = [0..<k0] @ k0 # [Suc k0..<n]"
    using n by simp
  moreover have "concat (map f [0..<k0]) = []" using assms(1) by simp
  ultimately show ?thesis by simp
qed

lemma backtrack_Cat_first:
  assumes "backtrack a s i = (e, g) # as" "backtrack b s e = (e', g') # bs"
  shows "\<exists>rest. backtrack (Cat a b) s i = (e', case g' of None \<Rightarrow> g | Some x \<Rightarrow> Some x) # rest"
  using assms by (simp add: backtrack.simps(3))

lemma backtrack_Cat_ascending:
  assumes a: "backtrack a s b = map (\<lambda>k. (b + k, h k)) [0..<Suc n]"
    and k0: "k0 \<le> n"
    and r: "backtrack r s (b + k0) = (e, g) # rest"
    and none: "\<forall>k<k0. backtrack r s (b + k) = []"
  shows "\<exists>rest'. backtrack (Cat a r) s b = (e, case g of None \<Rightarrow> h k0 | Some x \<Rightarrow> Some x) # rest'"
proof -
  let ?F = "\<lambda>k. map (\<lambda>(e', g'). (e', case g' of None \<Rightarrow> h k | Some x \<Rightarrow> Some x)) (backtrack r s (b + k))"
  have "backtrack (Cat a r) s b = concat (map ?F [0..<Suc n])"
    by (simp add: backtrack.simps(3) a o_def del: upt_Suc)
  also have "\<dots> = ?F k0 @ concat (map ?F [Suc k0..<Suc n])"
    using none k0 by (intro concat_map_upt_first) auto
  finally show ?thesis using r by simp
qed

lemma run_AnyChar: "run AnyChar s i = length s - i"
proof -
  have tw: "takeWhile (in_class AnyChar) xs = xs" for xs by (induction xs) auto
  show ?thesis by (simp add: run_def tw)
qed

lemma backtrack_Star_first: "\<exists>rest. backtrack (Star c) s i = (i + run c s i, None) # rest"
  by simp

lemma backtrack_tag_first:
  "\<exists>rest. backtrack (Opt (Alt (lits ''cypher'') (lits ''neo4j''))) s i = (tag_end s i, None) # rest"
  by (simp add: backtrack_lits tag_end_def)

lemma fence_search:
  assumes o: "ci_at fence s i0" and first: "\<forall>j<i0. \<not> ci_at fence s j"
    and b: "b = tag_end s (i0 + 3) + run Whitespace s (tag_end s (i0 + 3))"
    and bc: "b \<le> c" and cl: "ci_at fence s c"
    and nf: "\<forall>j. b \<le> j \<and> j < c \<longrightarrow> \<not> ci_at fence s j"
  shows "re_search cypher_pattern s = Some (i0, c + 3, Some (b, c))"
proof -
  let ?R3 = "Cat (Group (LazyStar AnyChar)) (lits fence)"
  let ?R2 = "Cat (Star Whitespace) ?R3"
  let ?R1 = "Cat (Opt (Alt (lits ''cypher'') (lits ''neo4j''))) ?R2"
  have len: "length fence = 3" and ne: "fence \<noteq> []" by (simp_all add: fence_def)
  from ci_at_length[OF cl ne] have c3: "c + 3 \<le> length s" by (simp add: len)
  from ci_at_length[OF o ne] have i0: "i0 \<le> length s" by simp
  have g: "backtrack (Group (LazyStar AnyChar)) s b
          = map (\<lambda>k. (b + k, Some (b, b + k))) [0..<Suc (length s - b)]"
    by (simp add: run_AnyChar o_def del: upt_Suc)
  have k0: "c - b \<le> length s - b" using c3 by simp
  have hit: "backtrack (lits fence) s (b + (c - b)) = (c + 3, None) # []"
    using cl bc by (simp add: backtrack_lits len)
  have miss: "\<forall>k<c - b. backtrack (lits fence) s (b + k) = []"
  proof (intro allI impI)
    fix k assume "k < c - b"
    then have "b \<le> b + k \<and> b + k < c" by simp
    with nf have "\<not> ci_at fence s (b + k)" by blast
    then show "backtrack (lits fence) s (b + k) = []" by (simp add: backtrack_lits)
  qed
  from backtrack_Cat_ascending[OF g k0 hit miss]
  obtain r3 where r3: "backtrack ?R3 s b = (c + 3, Some (b, b + (c - b))) # r3"
    by auto
  then have r3': "backtrack ?R3 s b = (c + 3, Some (b, c)) # r3" using bc by simp
  let ?t = "tag_end s (i0 + 3)"
  from backtrack_Star_first[of Whitespace s ?t] obtain st where
    "backtrack (Star Whitespace) s ?t = (b, None) # st" unfolding b by blast
  from backtrack_Cat_first[OF this r3'] obtain r2 where
    r2: "backtrack ?R2 s ?t = (c + 3, Some (b, c)) # r2" by auto
  from backtrack_tag_first[of s "i0 + 3"] obtain tt where
    "backtrack (Opt (Alt (lits ''cypher'') (lits ''neo4j''))) s (i0 + 3) = (?t, None) # tt"
    by blast
  from backtrack_Cat_first[OF this r2] obtain r1 where
    r1: "backtrack ?R1 s (i0 + 3) = (c + 3, Some (b, c)) # r1" by auto
  have at: "backtrack cypher_pattern s i0 = (c + 3, Some (b, c)) # r1"
    using o r1 by (simp add: cypher_pattern_def backtrack_Cat_lits len)
  have before: "\<forall>j<i0. backtrack cypher_pattern s j = []"
    using first by (simp add: cypher_pattern_def backtrack_Cat_lits)
  from re_search_first[OF i0 at before] show ?thesis .
qed

lemma no_fence_search:
  assumes "\<forall>j. \<not> ci_at fence s j"
  shows "re_search cypher_pattern s = None"
  using assms by (simp add: re_search_None cypher_pattern_def backtrack_Cat_lits)

lemma ci_at_shift: "ci_at w (p @ q) (length p + j) = ci_at w q j"
  by (simp add: ci_at_def)

lemma ci_at_self: "map lower x = map lower w \<Longrightarrow> ci_at w (x @ r) 0"
proof -
  assume a: "map lower x = map lower w"
  then have "length x = length w" by (metis length_map)
  with a show ?thesis by (simp add: ci_at_def)
qed

lemma lower_backtick: "lower c = CHR 0x60 \<longleftrightarrow> c = CHR 0x60"
  using letters_not_backtick by (cases c rule: lower_cases) auto

lemma fence_props:
  "length fence = 3" "fence = ''``'' @ ''`''" "\<forall>c \<in> set fence. c = CHR 0x60" "hd fence = CHR 0x60"
  "fence \<noteq> []"
  by (simp_all add: fence_def)

lemma fence_lit:
  assumes "ci_at fence s j"
  shows "take (length fence) (drop j s) = fence"
proof (rule nth_equalityI)
  let ?x = "take (length fence) (drop j s)"
  from assms have m: "map lower ?x = map lower fence" by (simp add: ci_at_def)
  then have "length (map lower ?x) = length (map lower fence)" by simp
  then show len: "length ?x = length fence" by simp
  fix i assume i: "i < length ?x"
  with len have i': "i < length fence" by simp
  from m have "map lower ?x ! i = map lower fence ! i" by simp
  with i i' have "lower (?x ! i) = lower (fence ! i)" by simp
  moreover have "fence ! i = CHR 0x60" using fence_props(3) i' by simp
  moreover have "lower (CHR 0x60) = CHR 0x60" by (simp add: lower_backtick)
  ultimately show "?x ! i = fence ! i" by (simp add: lower_backtick)
qed

lemma no_fence_inside:
  assumes nc: "\<not> contains fence (p @ ''``'')" and j: "j < length p"
  shows "\<not> ci_at fence (p @ fence @ r) j"
proof
  assume a: "ci_at fence (p @ fence @ r) j"
  have "p @ fence @ r = (p @ ''``'') @ (''`'' @ r)" by (simp add: fence_def)
  with a have a': "ci_at fence ((p @ ''``'') @ (''`'' @ r)) j" by (simp only:)
  have "j + length fence \<le> length (p @ ''``'')" using j by (simp add: fence_props(1))
  from ci_at_append[OF this, of "''`'' @ r"] a' have "ci_at fence (p @ ''``'') j" by blast
  from fence_lit[OF this] have "take (length fence) (drop j (p @ ''``'')) = fence" .
  moreover have "j \<in> set [0..<Suc (length (p @ ''``''))]" using j by simp
  ultimately have "contains fence (p @ ''``'')" unfolding contains_def by blast
  with nc show False by simp
qed

lemma ci_at_before_fence:
  assumes a: "ci_at w (X @ fence @ r) 0" and w: "CHR 0x60 \<notin> lower ` set w"
  shows "ci_at w X 0"
proof (cases "length w \<le> length X")
  case True
  then have "0 + length w \<le> length X" by simp
  from ci_at_append[OF this, of "fence @ r"] a show ?thesis by blast
next
  case False
  then have k: "length X < length w" by simp
  from ci_at_nth[OF a k] have "lower ((X @ fence @ r) ! length X) = lower (w ! length X)" by simp
  moreover have "(X @ fence @ r) ! length X = CHR 0x60"
    by (simp add: fence_def nth_append)
  moreover have "lower (CHR 0x60) = CHR 0x60" by (simp add: lower_backtick)
  ultimately have "CHR 0x60 = lower (w ! length X)" by simp
  moreover have "w ! length X \<in> set w" using k by simp
  ultimately have "CHR 0x60 \<in> lower ` set w" by (simp add: image_iff) blast
  with w show ?thesis by simp
qed

lemma takeWhile_append_stop: "\<not> P y \<Longrightarrow> takeWhile P (xs @ y # ys) = takeWhile P xs"
  by (induction xs) auto

lemma lower_tags:
  "map lower ''cypher'' = ''cypher''" "map lower ''neo4j'' = ''neo4j''"
  "CHR 0x60 \<notin> lower ` set ''cypher''" "CHR 0x60 \<notin> lower ` set ''neo4j''"
  "lower CHR ''c'' \<noteq> CHR ''n''"
  by (simp_all add: lower_def upper_letters_def lower_letters_def)

lemma tag_end_fenced:
  assumes "tag_ok tag X"
  shows "tag_end (pre @ fence @ tag @ X @ fence @ post) (length pre + 3) = length pre + 3 + length tag"
proof -
  let ?r = "tag @ X @ fence @ post"
  have sh: "ci_at w (pre @ fence @ ?r) (length pre + 3) = ci_at w ?r 0" for w
  proof -
    have "ci_at w ((pre @ fence) @ ?r) (length (pre @ fence) + 0) = ci_at w ?r 0"
      by (rule ci_at_shift)
    then show ?thesis by (simp add: fence_props(1))
  qed
  from assms consider (c) "map lower tag = ''cypher''" | (n) "map lower tag = ''neo4j''"
    | (u) "tag = []" "\<not> ci_at ''cypher'' X 0" "\<not> ci_at ''neo4j'' X 0"
    by (auto simp: tag_ok_def)
  then show ?thesis
  proof cases
    case c
    then have "map lower tag = map lower ''cypher''" by (simp only: lower_tags)
    from ci_at_self[OF this] have y: "ci_at ''cypher'' ?r 0" .
    from c have "length (map lower tag) = length ''cypher''" by (simp only:)
    then have "length tag = 6" by simp
    with y show ?thesis by (simp add: tag_end_def sh)
  next
    case n
    then have "map lower tag = map lower ''neo4j''" by (simp only: lower_tags)
    from ci_at_self[OF this] have y: "ci_at ''neo4j'' ?r 0" .
    from n have "length (map lower tag) = length ''neo4j''" by (simp only:)
    then have len: "length tag = 5" by simp
    from n obtain a tl where tag: "tag = a # tl" and a: "lower a = CHR ''n''"
      by (cases tag) auto
    have "\<not> ci_at ''cypher'' ?r 0"
    proof
      assume "ci_at ''cypher'' ?r 0"
      from ci_at_nth[OF this, of 0] have "lower (?r ! 0) = lower CHR ''c''" by simp
      with tag a show False using lower_tags(5) by simp
    qed
    with y len show ?thesis by (simp add: tag_end_def sh)
  next
    case u
    have "\<not> ci_at ''cypher'' (X @ fence @ post) 0"
      using ci_at_before_fence[OF _ lower_tags(3), of X post] u(2) by blast
    moreover have "\<not> ci_at ''neo4j'' (X @ fence @ post) 0"
      using ci_at_before_fence[OF _ lower_tags(4), of X post] u(3) by blast
    moreover have "ci_at w (pre @ fence @ X @ fence @ post) (length pre + 3)
                     = ci_at w (X @ fence @ post) 0" for w
      using sh[of w] u(1) by simp
    ultimately show ?thesis using u(1) by (simp add: tag_end_def)
  qed
qed

lemma run_whitespace_fenced:
  "run Whitespace (p @ X @ fence @ post) (length p) = length (takeWhile is_space X)"
proof -
  have c: "in_class Whitespace = is_space" by (rule ext) simp
  have e: "X @ fence @ post = X @ CHR 0x60 # (''``'' @ post)" by (simp add: fence_def)
  have "takeWhile is_space (X @ CHR 0x60 # (''``'' @ post)) = takeWhile is_space X"
    by (rule takeWhile_append_stop) (simp add: is_space_def)
  then have "takeWhile is_space (X @ fence @ post) = takeWhile is_space X"
    by (simp only: e)
  then show ?thesis by (simp add: run_def c)
qed

lemma strip_dropWhile: "strip (dropWhile is_space X) = strip X"
  by (simp add: strip_def)

lemma extract_fenced:
  assumes pre: "\<not> contains fence (pre @ ''``'')" and tag: "tag_ok tag X"
    and body: "\<not> contains fence (X @ ''``'')"
  shows "extract_cypher_from_response (pre @ fence @ tag @ X @ fence @ post) = Inr (strip X)"
proof -
  let ?s = "pre @ fence @ tag @ X @ fence @ post"
  let ?t = "length pre + 3 + length tag"
  let ?lw = "length (takeWhile is_space X)"
  have sh: "ci_at w ?s (?t + j) = ci_at w (X @ fence @ post) j" for w j
    using ci_at_shift[of w "pre @ fence @ tag" "X @ fence @ post" j]
    by (simp add: fence_props(1) add.assoc)
  have "ci_at fence (pre @ fence @ tag @ X @ fence @ post) (length pre + 0)"
    unfolding ci_at_shift by (rule ci_at_self) simp
  then have o: "ci_at fence ?s (length pre)" by simp
  have first: "\<forall>j<length pre. \<not> ci_at fence ?s j"
    using no_fence_inside[OF pre] by blast
  have te: "tag_end ?s (length pre + 3) = ?t" by (rule tag_end_fenced[OF tag])
  have "run Whitespace ((pre @ fence @ tag) @ X @ fence @ post) (length (pre @ fence @ tag)) = ?lw"
    by (rule run_whitespace_fenced)
  then have rw: "run Whitespace ?s ?t = ?lw" by (simp add: fence_props(1) add.assoc)
  have b: "?t + ?lw = tag_end ?s (length pre + 3) + run Whitespace ?s (tag_end ?s (length pre + 3))"
    by (simp only: te rw)
  have bc: "?t + ?lw \<le> ?t + length X" by (simp add: length_takeWhile_le)
  have "ci_at fence (X @ fence @ post) (length X + 0)"
    unfolding ci_at_shift by (rule ci_at_self) simp
  then have cl: "ci_at fence ?s (?t + length X)" by (simp add: sh)
  have nf: "\<forall>j. ?t + ?lw \<le> j \<and> j < ?t + length X \<longrightarrow> \<not> ci_at fence ?s j"
  proof (intro allI impI)
    fix j assume j: "?t + ?lw \<le> j \<and> j < ?t + length X"
    then obtain j' where j': "j = ?t + j'" "j' < length X"
      by (metis add_less_cancel_left le_Suc_ex add_leD1)
    from no_fence_inside[OF body j'(2), of post] show "\<not> ci_at fence ?s j"
      unfolding j'(1) sh .
  qed
  from fence_search[OF o first b bc cl nf]
  have "re_search cypher_pattern ?s = Some (length pre, ?t + length X + 3, Some (?t + ?lw, ?t + length X))" .
  then have "findall_first cypher_pattern ?s = Some (slice ?s (?t + ?lw) (?t + length X))"
    by (simp add: findall_first_def)
  moreover have "slice ?s (?t + ?lw) (?t + length X) = dropWhile is_space X"
  proof -
    have "drop (?t + ?lw) ?s = drop ?lw (X @ fence @ post)"
      by (simp add: fence_props(1) add.assoc)
    then have "slice ?s (?t + ?lw) (?t + length X) = take (length X - ?lw) (drop ?lw (X @ fence @ post))"
      by (simp add: slice_def)
    also have "\<dots> = drop ?lw X" by (simp add: length_takeWhile_le)
    also have "\<dots> = dropWhile is_space X" by (simp add: dropWhile_eq_drop)
    finally show ?thesis .
  qed
  ultimately show ?thesis
    by (simp add: extract_cypher_from_response_def strip_dropWhile)
qed

lemma match_pattern_eq:
  "match_pattern = Group (Cat (lits ''MATCH'') (Cat (LazyStar AnyChar) terminators))"
  by (simp add: match_pattern_def)

lemma terminators_none: "backtrack terminators s j = [] \<longleftrightarrow> \<not> terminator_at s j"
  by (auto simp: terminators_def backtrack_lits terminator_at_def)

lemma terminators_return:
  "ci_at ''RETURN'' s j \<Longrightarrow> \<exists>rest. backtrack terminators s j = (j + 6, None) # rest"
  by (simp add: terminators_def backtrack_lits)

lemma terminators_semicolon:
  "\<not> ci_at ''RETURN'' s j \<Longrightarrow> ci_at '';'' s j
    \<Longrightarrow> \<exists>rest. backtrack terminators s j = (j + 1, None) # rest"
  by (simp add: terminators_def backtrack_lits)

lemma terminators_blank:
  "\<not> ci_at ''RETURN'' s j \<Longrightarrow> \<not> ci_at '';'' s j \<Longrightarrow> ci_at [CHR 0x0A, CHR 0x0A] s j
    \<Longrightarrow> \<exists>rest. backtrack terminators s j = (j + 2, None) # rest"
  by (simp add: terminators_def backtrack_lits)

lemma terminators_end:
  "\<not> ci_at ''RETURN'' s j \<Longrightarrow> \<not> ci_at '';'' s j \<Longrightarrow> \<not> ci_at [CHR 0x0A, CHR 0x0A] s j
    \<Longrightarrow> j = length s \<Longrightarrow> backtrack terminators s j = [(j, None)]"
  by (simp add: terminators_def backtrack_lits)

lemma terminators_bounds:
  assumes "(e, g) \<in> set (backtrack terminators s j)"
  shows "j \<le> e \<and> e \<le> length s"
  using assms ci_at_length[of "''RETURN''" s j] ci_at_length[of "'';''" s j]
    ci_at_length[of "[CHR 0x0A, CHR 0x0A]" s j]
  by (auto simp: terminators_def backtrack_lits split: if_splits)

lemma match_search:
  assumes m: "ci_at ''MATCH'' s i0" and first: "\<forall>j<i0. \<not> ci_at ''MATCH'' s j"
    and jc: "i0 + 5 \<le> c" and cl: "c \<le> length s"
    and hit: "backtrack terminators s c = (e, g) # rest"
    and nt: "\<forall>k. i0 + 5 \<le> k \<and> k < c \<longrightarrow> \<not> terminator_at s k"
  shows "re_search match_pattern s = Some (i0, e, Some (i0, e))"
proof -
  let ?b = "i0 + 5"
  from ci_at_length[OF m] have i0: "i0 \<le> length s" by simp
  have gl: "backtrack (LazyStar AnyChar) s ?b = map (\<lambda>k. (?b + k, None)) [0..<Suc (length s - ?b)]"
    by (simp add: run_AnyChar del: upt_Suc)
  have k0: "c - ?b \<le> length s - ?b" using cl by simp
  from hit have hit': "backtrack terminators s (?b + (c - ?b)) = (e, g) # rest"
    using jc by simp
  have miss: "\<forall>k<c - ?b. backtrack terminators s (?b + k) = []"
  proof (intro allI impI)
    fix k assume "k < c - ?b"
    then have "?b \<le> ?b + k \<and> ?b + k < c" by simp
    with nt have "\<not> terminator_at s (?b + k)" by blast
    then show "backtrack terminators s (?b + k) = []" by (simp add: terminators_none)
  qed
  from backtrack_Cat_ascending[OF gl k0 hit' miss]
  obtain g1 r1 where "backtrack (Cat (LazyStar AnyChar) terminators) s ?b = (e, g1) # r1"
    by auto
  moreover have "i0 + length ''MATCH'' = i0 + 5" by simp
  moreover have "backtrack (Cat (lits ''MATCH'') (Cat (LazyStar AnyChar) terminators)) s i0
               = backtrack (Cat (LazyStar AnyChar) terminators) s (i0 + length ''MATCH'')"
    using m by (simp only: backtrack_Cat_lits if_True)
  ultimately have "backtrack (Cat (lits ''MATCH'') (Cat (LazyStar AnyChar) terminators)) s i0
               = (e, g1) # r1"
    by (simp only:)
  then have at: "backtrack match_pattern s i0
               = (e, Some (i0, e)) # map (\<lambda>(e, g). (e, Some (i0, e))) r1"
    by (simp add: match_pattern_eq)
  have before: "\<forall>j<i0. backtrack match_pattern s j = []"
    using first by (simp add: match_pattern_eq backtrack_Cat_lits)
  from re_search_first[OF i0 at before] show ?thesis .
qed

lemma no_fence_at: "\<not> contains fence s \<Longrightarrow> \<not> ci_at fence s j"
proof
  assume nc: "\<not> contains fence s" and a: "ci_at fence s j"
  from fence_lit[OF a] have "take (length fence) (drop j s) = fence" .
  moreover from ci_at_length[OF a fence_props(5)] have "j \<in> set [0..<Suc (length s)]"
    by (auto simp del: upt_Suc)
  ultimately have "contains fence s" unfolding contains_def by blast
  with nc show False by simp
qed

lemma not_space_ci:
  assumes "ci_at w s i" "k < length w" "\<not> is_space (lower (w ! k))"
  shows "\<not> is_space (s ! (i + k))"
  using ci_at_nth[OF assms(1,2)] assms(3) is_space_lower[of "s ! (i + k)"] by simp

lemma extract_match_at:
  assumes nf: "\<not> contains fence s" and m: "first_ci_at ''MATCH'' s i" and ij: "i + 5 \<le> j"
    and jl: "j \<le> length s" and hit: "backtrack terminators s j = (e, g) # rest"
    and nt: "\<forall>k \<in> set [i + 5..<j]. \<not> terminator_at s k"
  shows "extract_cypher_from_response s = Inr (strip (slice s i e))"
proof -
  from m have m1: "ci_at ''MATCH'' s i" and m2: "\<forall>k<i. \<not> ci_at ''MATCH'' s k"
    by (simp_all add: first_ci_at_def)
  from nt have nt': "\<forall>k. i + 5 \<le> k \<and> k < j \<longrightarrow> \<not> terminator_at s k" by simp
  have "re_search cypher_pattern s = None"
    using no_fence_at[OF nf] by (intro no_fence_search) blast
  then have p1: "findall_first cypher_pattern s = None" by (simp add: findall_first_def)
  from match_search[OF m1 m2 ij jl hit nt']
  have p2: "findall_first match_pattern s = Some (slice s i e)"
    by (simp add: findall_first_def)
  from p1 p2 show ?thesis by (simp add: extract_cypher_from_response_def)
qed

lemma match_not_space:
  assumes "ci_at ''MATCH'' s i"
  shows "\<not> is_space (s ! i)"
proof -
  have "\<not> is_space (s ! (i + 0))"
    by (rule not_space_ci[OF assms])
       (simp_all add: is_space_def lower_def upper_letters_def lower_letters_def)
  then show ?thesis by simp
qed

lemma semicolon_char: "ci_at '';'' s j \<Longrightarrow> j < length s \<and> s ! j = CHR '';''"
proof -
  assume a: "ci_at '';'' s j"
  from ci_at_length[OF a] have l: "j < length s" by simp
  from ci_at_nth[OF a, of 0] have "lower (s ! j) = lower CHR '';''" by simp
  moreover have "lower CHR '';'' = CHR '';''"
    by (simp add: lower_def upper_letters_def lower_letters_def)
  moreover have "CHR '';'' \<notin> set lower_letters" by (simp add: lower_letters_def)
  ultimately have "s ! j = CHR '';''" by (cases "s ! j" rule: lower_cases) auto
  with l show ?thesis by simp
qed

lemma newline_char: "ci_at [CHR 0x0A, CHR 0x0A] s j
   \<Longrightarrow> j + 2 \<le> length s \<and> s ! j = CHR 0x0A \<and> s ! (j + 1) = CHR 0x0A"
proof -
  assume a: "ci_at [CHR 0x0A, CHR 0x0A] s j"
  from ci_at_length[OF a] have l: "j + 2 \<le> length s" by simp
  have lo: "lower (CHR 0x0A) = CHR 0x0A"
    by (simp add: lower_def upper_letters_def lower_letters_def)
  have nl: "CHR 0x0A \<notin> set lower_letters" by (simp add: lower_letters_def)
  from ci_at_nth[OF a, of 0] lo have "lower (s ! j) = CHR 0x0A" by simp
  with nl have 1: "s ! j = CHR 0x0A" by (cases "s ! j" rule: lower_cases) auto
  from ci_at_nth[OF a, of 1] lo have "lower (s ! (j + 1)) = CHR 0x0A" by simp
  with nl have 2: "s ! (j + 1) = CHR 0x0A" by (cases "s ! (j + 1)" rule: lower_cases) auto
  from l 1 2 show ?thesis by simp
qed

lemma return_char: "ci_at ''RETURN'' s j \<Longrightarrow> j < length s \<and> lower (s ! j) = CHR ''r''"
proof -
  assume a: "ci_at ''RETURN'' s j"
  from ci_at_length[OF a] have l: "j < length s" by simp
  from ci_at_nth[OF a, of 0] have "lower (s ! j) = lower CHR ''R''" by simp
  moreover have "lower CHR ''R'' = CHR ''r''"
    by (simp add: lower_def upper_letters_def lower_letters_def)
  ultimately show ?thesis using l by simp
qed

lemma semicolon_not_return: "ci_at '';'' s j \<Longrightarrow> \<not> ci_at ''RETURN'' s j"
proof
  assume a: "ci_at '';'' s j" and b: "ci_at ''RETURN'' s j"
  have "lower CHR '';'' = CHR '';''"
    by (simp add: lower_def upper_letters_def lower_letters_def)
  with semicolon_char[OF a] return_char[OF b] show False by simp
qed

lemma newline_not_others:
  assumes a: "ci_at [CHR 0x0A, CHR 0x0A] s j"
  shows "\<not> ci_at ''RETURN'' s j \<and> \<not> ci_at '';'' s j"
proof -
  have "lower (CHR 0x0A) = CHR 0x0A"
    by (simp add: lower_def upper_letters_def lower_letters_def)
  with newline_char[OF a] show ?thesis
    using return_char[of s j] semicolon_char[of s j] by auto
qed

lemma strip_append_space:
  assumes "\<forall>c \<in> set ws. is_space c"
  shows "strip (x @ ws) = strip x"
proof (cases "\<forall>c \<in> set x. is_space c")
  case True
  with assms have "dropWhile is_space (x @ ws) = []" "dropWhile is_space x = []"
    by (simp_all add: dropWhile_eq_Nil_conv)
  then show ?thesis by (simp only: strip_def)
next
  case False
  then have "dropWhile is_space (x @ ws) = dropWhile is_space x @ ws"
    by (auto simp: dropWhile_append1)
  moreover have "dropWhile is_space (rev ws @ y) = dropWhile is_space y" for y
    using assms by (auto intro!: dropWhile_append2)
  ultimately show ?thesis by (simp add: strip_def)
qed

lemma extract_match_semicolon:
  assumes nf: "\<not> contains fence s" and m: "first_ci_at ''MATCH'' s i" and ij: "i + 5 \<le> j"
    and t: "ci_at '';'' s j" and nt: "\<forall>k \<in> set [i + 5..<j]. \<not> terminator_at s k"
  shows "extract_cypher_from_response s = Inr (slice s i (j + 1))"
proof -
  from m have m1: "ci_at ''MATCH'' s i" by (simp add: first_ci_at_def)
  from semicolon_char[OF t] have jl: "j < length s" and sj: "s ! j = CHR '';''" by simp_all
  from terminators_semicolon[OF semicolon_not_return[OF t] t]
  obtain rest where hit: "backtrack terminators s j = (j + 1, None) # rest" by blast
  from jl have jl': "j \<le> length s" by simp
  let ?x = "slice s i (j + 1)"
  have x: "?x \<noteq> []" using jl ij by (simp add: slice_def)
  have "hd ?x = s ! i" using jl ij by (simp add: slice_def hd_drop_conv_nth)
  with match_not_space[OF m1] have h: "\<not> is_space (hd ?x)" by simp
  have "last ?x = ?x ! (length ?x - 1)" using x by (rule last_conv_nth)
  also have "\<dots> = s ! j" using jl ij by (simp add: slice_def)
  finally have "last ?x = CHR '';''" using sj by simp
  then have l: "\<not> is_space (last ?x)" by (simp add: is_space_def)
  from h l have "strip ?x = ?x" by (intro strip_id) (simp add: no_surrounding_space_def)
  with extract_match_at[OF nf m ij jl' hit nt] show ?thesis by simp
qed

lemma extract_match_blank:
  assumes nf: "\<not> contains fence s" and m: "first_ci_at ''MATCH'' s i" and ij: "i + 5 \<le> j"
    and t: "ci_at [CHR 0x0A, CHR 0x0A] s j" and nt: "\<forall>k \<in> set [i + 5..<j]. \<not> terminator_at s k"
  shows "extract_cypher_from_response s = Inr (strip (slice s i j))"
proof -
  from newline_char[OF t] have jl: "j + 2 \<le> length s"
    and c: "s ! j = CHR 0x0A" "s ! (j + 1) = CHR 0x0A" by simp_all
  from newline_not_others[OF t] terminators_blank[OF _ _ t]
  obtain rest where hit: "backtrack terminators s j = (j + 2, None) # rest" by blast
  from jl have jl': "j \<le> length s" by simp
  have e: "j + 2 - i = (j - i) + 2" using ij by simp
  have "take ((j - i) + 2) (drop i s) = take (j - i) (drop i s) @ take 2 (drop (j - i) (drop i s))"
    by (rule take_add)
  moreover have "drop (j - i) (drop i s) = drop j s" using ij by simp
  moreover have "drop j s = s ! j # s ! (j + 1) # drop (j + 2) s"
    using jl by (simp add: Cons_nth_drop_Suc)
  ultimately have "take (j + 2 - i) (drop i s) = take (j - i) (drop i s) @ [s ! j, s ! (j + 1)]"
    by (simp only: e) simp
  then have "slice s i (j + 2) = slice s i j @ [CHR 0x0A, CHR 0x0A]"
    using c by (simp add: slice_def)
  moreover have "\<forall>c \<in> set [CHR 0x0A, CHR 0x0A]. is_space c" by (simp add: is_space_def)
  ultimately have "strip (slice s i (j + 2)) = strip (slice s i j)"
    by (simp only: strip_append_space)
  with extract_match_at[OF nf m ij jl' hit nt] show ?thesis by simp
qed

lemma extract_match_end:
  assumes nf: "\<not> contains fence s" and m: "first_ci_at ''MATCH'' s i"
    and nt: "\<forall>k \<in> set [i + 5..<length s]. \<not> terminator_at s k"
  shows "extract_cypher_from_response s = Inr (strip (drop i s))"
proof -
  from m have m1: "ci_at ''MATCH'' s i" by (simp add: first_ci_at_def)
  from ci_at_length[OF m1] have ij: "i + 5 \<le> length s" by simp
  have "\<not> ci_at ''RETURN'' s (length s)" "\<not> ci_at '';'' s (length s)"
    "\<not> ci_at [CHR 0x0A, CHR 0x0A] s (length s)"
    using ci_at_length[of _ s "length s"] by fastforce+
  from terminators_end[OF this refl]
  have hit: "backtrack terminators s (length s) = (length s, None) # []" .
  from extract_match_at[OF nf m ij le_refl hit nt] show ?thesis by (simp add: slice_def)
qed

lemma extract_match_some:
  assumes nf: "\<not> contains fence s" and m: "first_ci_at ''MATCH'' s i"
  shows "\<exists>e. i + 5 \<le> e \<and> e \<le> length s \<and>
             extract_cypher_from_response s = Inr (strip (slice s i e))"
proof -
  from m have m1: "ci_at ''MATCH'' s i" by (simp add: first_ci_at_def)
  from ci_at_length[OF m1] have il: "i + 5 \<le> length s" by simp
  let ?P = "\<lambda>j. i + 5 \<le> j \<and> terminator_at s j"
  define j where "j = (LEAST j. ?P j)"
  have P: "?P (length s)" using il by (simp add: terminator_at_def)
  from LeastI[of ?P, OF P] have j1: "i + 5 \<le> j" "terminator_at s j" by (simp_all add: j_def)
  from Least_le[of ?P, OF P] have jl: "j \<le> length s" by (simp add: j_def)
  have nt: "\<forall>k \<in> set [i + 5..<j]. \<not> terminator_at s k"
  proof
    fix k assume "k \<in> set [i + 5..<j]"
    then have k: "i + 5 \<le> k" "k < j" by simp_all
    from not_less_Least[of k ?P] k(2) have "\<not> ?P k" by (simp add: j_def)
    with k(1) show "\<not> terminator_at s k" by simp
  qed
  from j1(2) have "backtrack terminators s j \<noteq> []" by (simp add: terminators_none)
  then obtain e g rest where hit: "backtrack terminators s j = (e, g) # rest"
    by (cases "backtrack terminators s j") auto
  then have "(e, g) \<in> set (backtrack terminators s j)" by simp
  from terminators_bounds[OF this] have "j \<le> e" "e \<le> length s" by simp_all
  with j1(1) extract_match_at[OF nf m j1(1) jl hit nt] show ?thesis
    by (intro exI[of _ e]) simp
qed

lemma extract_match_return:
  assumes nf: "\<not> contains fence s" and m: "first_ci_at ''MATCH'' s i" and ij: "i + 5 \<le> j"
    and r: "ci_at ''RETURN'' s j" and nt: "\<forall>k \<in> set [i + 5..<j]. \<not> terminator_at s k"
  shows "extract_cypher_from_response s = Inr (slice s i (j + 6))"
proof -
  from m have m1: "ci_at ''MATCH'' s i" by (simp add: first_ci_at_def)
  from ci_at_length[OF r] have j6: "j + 6 \<le> length s" by simp
  then have jl: "j \<le> length s" by simp
  from terminators_return[OF r]
  obtain rest where hit: "backtrack terminators s j = (j + 6, None) # rest" by blast
  let ?x = "slice s i (j + 6)"
  have x: "?x \<noteq> []" using j6 ij by (simp add: slice_def)
  have "hd ?x = s ! i" using j6 ij by (simp add: slice_def hd_drop_conv_nth)
  with match_not_space[OF m1] have h: "\<not> is_space (hd ?x)" by simp
  have "last ?x = ?x ! (length ?x - 1)" using x by (rule last_conv_nth)
  also have "\<dots> = s ! (j + 5)" using j6 ij by (simp add: slice_def add.commute)
  finally have "last ?x = s ! (j + 5)" .
  moreover have "\<not> is_space (s ! (j + 5))"
    by (rule not_space_ci[OF r]) (simp_all add: is_space_def lower_def upper_letters_def lower_letters_def)
  ultimately have l: "\<not> is_space (last ?x)" by simp
  from h l have "strip ?x = ?x" by (intro strip_id) (simp add: no_surrounding_space_def)
  with extract_match_at[OF nf m ij jl hit nt] show ?thesis by simp
qed

text \<open>When \<open>RETURN\<close> is the first terminator, the match ends right after the keyword: what
  the statement returns is not part of the result.\<close>

lemma return_clause_cut:
  "extract_cypher_from_response ''MATCH (n) RETURN n'' = Inr ''MATCH (n) RETURN''"
  "extract_cypher_from_response ''MATCH (n) RETURN n.name;'' = Inr ''MATCH (n) RETURN''"
  by code_simp+

text \<open>Code points beyond ASCII: the no-break space is whitespace for \<open>\s\<close> and \<open>strip\<close>.\<close>

lemma extract_beyond_ascii:
  "extract_cypher_from_response (''```cypher'' @ [CHR 0xA0] @ ''RETURN 1'' @ [CHR 0xA0] @ ''```'')
     = Inr ''RETURN 1''"
  by code_simp

section \<open>The retry loop, case by case\<close>

declare retry_loop.simps [simp del]

lemma improve_queries:
  "improve_cypher_with_context llm c e schema w = (imp, w') \<Longrightarrow> queries w' = queries w"
  by (auto simp: improve_cypher_with_context_def get_openai_response_def
           split: sum.splits prod.splits)

lemma generate_effect:
  "generate_enhanced_cypher llm question schema prev w = (r, w') \<Longrightarrow>
     queries w' = queries w \<and> (\<forall>c. r = Inr c \<longrightarrow> (\<exists>raw. validate_cypher_query raw = Inr c))"
  by (auto simp: generate_enhanced_cypher_def get_openai_response_def Let_def
           split: sum.splits prod.splits)

lemma provide_queries:
  "provide_intelligent_answer llm question df c w = (a, w') \<Longrightarrow> queries w' = queries w"
  by (auto simp: provide_intelligent_answer_def get_openai_response_def Let_def
           split: sum.splits prod.splits if_splits)

lemma try_block_cases:
  assumes "try_block llm db question schema st w = (r, c1, w1)"
  shows "(queries w1 = queries w \<and> c1 = cypher st \<and> isl r) \<or>
         (\<exists>c. queries w1 = queries w @ [c] \<and> c1 = Some c \<and>
               (\<exists>raw. validate_cypher_query raw = Inr c) \<and>
               (isl r \<longleftrightarrow> isl (db (length (queries w)) c)))"
  using assms
  by (auto simp: try_block_def graph_query_def split: sum.splits prod.splits
           dest!: generate_effect provide_queries)


lemma attempt_next [simp]: "attempt (next_session st c e imp) = attempt st + 1"
  by (simp add: next_session_def)

lemma previous_attempts_next [simp]:
  "previous_attempts (next_session st c e imp) = previous_attempts st @ [attempt_record (attempt st) c e]"
  by (simp add: next_session_def)

lemma loop_exit:
  "\<not> attempt st \<le> max_attempts \<Longrightarrow> retry_loop llm db question schema st w = (LoopExit, st, w)"
  by (simp add: retry_loop.simps)

lemma loop_success:
  "attempt st \<le> max_attempts \<Longrightarrow> try_block llm db question schema st w = (Inr fin, c1, w1) \<Longrightarrow>
   retry_loop llm db question schema st w = (fin, st\<lparr>cypher := c1\<rparr>, w1)"
  by (simp add: retry_loop.simps)

lemma loop_final:
  "attempt st = max_attempts \<Longrightarrow> try_block llm db question schema st w = (Inl e, c1, w1) \<Longrightarrow>
   retry_loop llm db question schema st w = (FinalFailure (attempt st) e c1, st\<lparr>cypher := c1\<rparr>, w1)"
  by (simp add: retry_loop.simps)

lemma loop_no_initial:
  "attempt st < max_attempts \<Longrightarrow> try_block llm db question schema st w = (Inl e, None, w1) \<Longrightarrow>
   retry_loop llm db question schema st w = (NoInitialQuery e, st\<lparr>cypher := None\<rparr>, w1)"
  by (simp add: retry_loop.simps)

lemma loop_continue:
  "attempt st < max_attempts \<Longrightarrow> try_block llm db question schema st w = (Inl e, Some c, w1) \<Longrightarrow>
   improve_cypher_with_context llm c e schema w1 = (imp, w2) \<Longrightarrow>
   retry_loop llm db question schema st w =
     retry_loop llm db question schema (next_session st c e imp) w2"
  by (simp add: retry_loop.simps)

lemma loop_induct [case_names exit success final no_initial continue]:
  assumes "\<And>st w. \<not> attempt st \<le> max_attempts \<Longrightarrow> P st w"
    and "\<And>st w fin c1 w1. attempt st \<le> max_attempts \<Longrightarrow>
           try_block llm db question schema st w = (Inr fin, c1, w1) \<Longrightarrow> P st w"
    and "\<And>st w e c1 w1. attempt st = max_attempts \<Longrightarrow>
           try_block llm db question schema st w = (Inl e, c1, w1) \<Longrightarrow> P st w"
    and "\<And>st w e w1. attempt st < max_attempts \<Longrightarrow>
           try_block llm db question schema st w = (Inl e, None, w1) \<Longrightarrow> P st w"
    and "\<And>st w e c w1 imp w2. attempt st < max_attempts \<Longrightarrow>
           try_block llm db question schema st w = (Inl e, Some c, w1) \<Longrightarrow>
           improve_cypher_with_context llm c e schema w1 = (imp, w2) \<Longrightarrow>
           P (next_session st c e imp) w2 \<Longrightarrow> P st w"
  shows "P st w"
proof (induction n \<equiv> "max_attempts + 1 - attempt st" arbitrary: st w)
  case (0 st w)
  then have "\<not> attempt st \<le> max_attempts" by simp
  then show ?case by (rule assms(1))
next
  case (Suc n st w)
  then have le: "attempt st \<le> max_attempts" by simp
  obtain r c1 w1 where tb: "try_block llm db question schema st w = (r, c1, w1)"
    by (cases "try_block llm db question schema st w") auto
  show ?case
  proof (cases r)
    case (Inr fin)
    with le tb show ?thesis by (auto intro: assms(2))
  next
    case (Inl e)
    show ?thesis
    proof (cases "attempt st < max_attempts")
      case False
      with le have "attempt st = max_attempts" by simp
      with tb Inl show ?thesis by (auto intro: assms(3))
    next
      case lt: True
      show ?thesis
      proof (cases c1)
        case None
        with lt tb Inl show ?thesis by (auto intro: assms(4))
      next
        case (Some c)
        obtain imp w2 where im: "improve_cypher_with_context llm c e schema w1 = (imp, w2)"
          by (cases "improve_cypher_with_context llm c e schema w1") auto
        have "n = max_attempts + 1 - attempt (next_session st c e imp)"
          using Suc.hyps(2) by simp
        then have "P (next_session st c e imp) w2" by (rule Suc.hyps(1))
        with lt tb Inl Some im show ?thesis by (auto intro: assms(5))
      qed
    qed
  qed
qed

lemma loop_queries_bound:
  "length (queries (snd (snd (retry_loop llm db question schema st w))))
     \<le> length (queries w) + (max_attempts + 1 - attempt st)"
proof (induction st w rule: loop_induct[where llm=llm and db=db and question=question and schema=schema])
  case (exit st w)
  then show ?case by (simp add: loop_exit)
next
  case (success st w fin c1 w1)
  then show ?case using try_block_cases[OF success(2)] by (auto simp: loop_success)
next
  case (final st w e c1 w1)
  then show ?case using try_block_cases[OF final(2)] by (auto simp: loop_final)
next
  case (no_initial st w e w1)
  then show ?case using try_block_cases[OF no_initial(2)] by (auto simp: loop_no_initial)
next
  case (continue st w e c w1 imp w2)
  then show ?case using try_block_cases[OF continue(2)] improve_queries[OF continue(3)]
    by (auto simp: loop_continue)
qed


lemma loop_records:
  "attempt st \<le> max_attempts \<Longrightarrow>
   length (previous_attempts (fst (snd (retry_loop llm db question schema st w)))) + attempt st
     = length (previous_attempts st) + attempt (fst (snd (retry_loop llm db question schema st w))) \<and>
   attempt (fst (snd (retry_loop llm db question schema st w))) \<le> max_attempts"
proof (induction st w rule: loop_induct[where llm=llm and db=db and question=question and schema=schema])
  case (exit st w)
  then show ?case by simp
next
  case (success st w fin c1 w1)
  then show ?case by (simp add: loop_success)
next
  case (final st w e c1 w1)
  then show ?case by (simp add: loop_final)
next
  case (no_initial st w e w1)
  then show ?case by (simp add: loop_no_initial)
next
  case (continue st w e c w1 imp w2)
  then show ?case by (simp add: loop_continue)
qed

lemma try_block_success:
  "try_block llm db question schema st w = (Inr fin, c1, w1) \<Longrightarrow> \<exists>a r c. fin = Answered a r c"
  by (auto simp: try_block_def split: sum.splits prod.splits)

lemma loop_queries_validated:
  "\<exists>qs. queries (snd (snd (retry_loop llm db question schema st w))) = queries w @ qs \<and>
        (\<forall>q \<in> set qs. \<exists>raw. validate_cypher_query raw = Inr q)"
proof (induction st w rule: loop_induct[where llm=llm and db=db and question=question and schema=schema])
  case (exit st w)
  then show ?case by (simp add: loop_exit)
next
  case (success st w fin c1 w1)
  then show ?case using try_block_cases[OF success(2)] by (auto simp: loop_success)
next
  case (final st w e c1 w1)
  then show ?case using try_block_cases[OF final(2)] by (auto simp: loop_final)
next
  case (no_initial st w e w1)
  then show ?case using try_block_cases[OF no_initial(2)] by (auto simp: loop_no_initial)
next
  case (continue st w e c w1 imp w2)
  then obtain qs where qs: "queries (snd (snd (retry_loop llm db question schema
                                (next_session st c e imp) w2))) = queries w2 @ qs"
      "\<forall>q \<in> set qs. \<exists>raw. validate_cypher_query raw = Inr q"
    by blast
  have q2: "queries w2 = queries w1" using improve_queries[OF continue(3)] .
  from try_block_cases[OF continue(2)]
  have "\<exists>qs1. queries w1 = queries w @ qs1 \<and> (\<forall>q \<in> set qs1. \<exists>raw. validate_cypher_query raw = Inr q)"
    by auto
  then obtain qs1 where qs1: "queries w1 = queries w @ qs1"
      "\<forall>q \<in> set qs1. \<exists>raw. validate_cypher_query raw = Inr q"
    by blast
  have "queries (snd (snd (retry_loop llm db question schema st w))) = queries w @ (qs1 @ qs)"
    using qs(1) qs1(1) q2 loop_continue[OF continue(1-3)] by simp
  moreover have "\<forall>q \<in> set (qs1 @ qs). \<exists>raw. validate_cypher_query raw = Inr q"
    using qs(2) qs1(2) by auto
  ultimately show ?case by blast
qed

lemma failing_iteration:
  assumes gen: "\<forall>prev w1. \<exists>q. fst (generate_enhanced_cypher llm question schema prev w1) = Inr q"
    and ex: "\<forall>n q. isl (db n q)"
  shows "\<exists>q e w1. try_block llm db question schema st w = (Inl (str_exn e), Some q, w1) \<and>
                   queries w1 = queries w @ [q] \<and> db (length (queries w)) q = Inl e"
proof -
  let ?prev = "if previous_attempts st \<noteq> [] then Some (join [CHR 0x0A] (previous_attempts st)) else None"
  obtain r w1 where g: "generate_enhanced_cypher llm question schema ?prev w = (r, w1)"
    by (cases "generate_enhanced_cypher llm question schema ?prev w") auto
  from gen obtain q where "fst (generate_enhanced_cypher llm question schema ?prev w) = Inr q"
    by blast
  with g have r: "r = Inr q" by simp
  from generate_effect[OF g] have q1: "queries w1 = queries w" by simp
  from ex obtain e where e: "db (length (queries w)) q = Inl e"
    by (metis isl_def)
  have "try_block llm db question schema st w
          = (Inl (str_exn e), Some q, w1\<lparr>queries := queries w1 @ [q]\<rparr>)"
    using g r e q1 by (simp add: try_block_def graph_query_def)
  with q1 e show ?thesis by simp
qed

lemma three_failures:
  assumes gen: "\<forall>prev w1. \<exists>q. fst (generate_enhanced_cypher llm question schema prev w1) = Inr q"
    and ex: "\<forall>n q. isl (db n q)"
  shows "\<exists>q1 q2 q3 e1 e2 e3 st' w'.
           run_question llm db question schema c0 w
             = (FinalFailure 3 (str_exn e3) (Some q3), st', w') \<and>
           attempt st' = 3 \<and> queries w' = queries w @ [q1, q2, q3] \<and>
           db (length (queries w)) q1 = Inl e1 \<and>
           db (length (queries w) + 1) q2 = Inl e2 \<and>
           db (length (queries w) + 2) q3 = Inl e3 \<and>
           previous_attempts st' = [attempt_record 1 q1 (str_exn e1), attempt_record 2 q2 (str_exn e2)]"
proof -
  let ?st1 = "\<lparr>attempt = 1, previous_attempts = [], cypher = c0\<rparr>"
  from failing_iteration[OF gen ex, of ?st1 w] obtain q1 e1 w1 where
    t1: "try_block llm db question schema ?st1 w = (Inl (str_exn e1), Some q1, w1)"
    and k1: "queries w1 = queries w @ [q1]" and d1: "db (length (queries w)) q1 = Inl e1"
    by blast
  obtain imp1 v1 where i1: "improve_cypher_with_context llm q1 (str_exn e1) schema w1 = (imp1, v1)"
    by (cases "improve_cypher_with_context llm q1 (str_exn e1) schema w1") auto
  have kv1: "queries v1 = queries w @ [q1]" using improve_queries[OF i1] k1 by simp
  let ?st2 = "next_session ?st1 q1 (str_exn e1) imp1"
  have l1: "retry_loop llm db question schema ?st1 w = retry_loop llm db question schema ?st2 v1"
    using t1 i1 by (intro loop_continue) (simp_all add: max_attempts_def)
  from failing_iteration[OF gen ex, of ?st2 v1] obtain q2 e2 w2 where
    t2: "try_block llm db question schema ?st2 v1 = (Inl (str_exn e2), Some q2, w2)"
    and k2: "queries w2 = queries v1 @ [q2]" and d2: "db (length (queries v1)) q2 = Inl e2"
    by blast
  obtain imp2 v2 where i2: "improve_cypher_with_context llm q2 (str_exn e2) schema w2 = (imp2, v2)"
    by (cases "improve_cypher_with_context llm q2 (str_exn e2) schema w2") auto
  have kv2: "queries v2 = queries w @ [q1, q2]" using improve_queries[OF i2] k2 kv1 by simp
  let ?st3 = "next_session ?st2 q2 (str_exn e2) imp2"
  have l2: "retry_loop llm db question schema ?st2 v1 = retry_loop llm db question schema ?st3 v2"
    using t2 i2 by (intro loop_continue) (simp_all add: max_attempts_def)
  from failing_iteration[OF gen ex, of ?st3 v2] obtain q3 e3 w3 where
    t3: "try_block llm db question schema ?st3 v2 = (Inl (str_exn e3), Some q3, w3)"
    and k3: "queries w3 = queries v2 @ [q3]" and d3: "db (length (queries v2)) q3 = Inl e3"
    by blast
  have l3: "retry_loop llm db question schema ?st3 v2
              = (FinalFailure (attempt ?st3) (str_exn e3) (Some q3), ?st3\<lparr>cypher := Some q3\<rparr>, w3)"
    using t3 by (intro loop_final) (simp_all add: max_attempts_def)
  have "run_question llm db question schema c0 w
          = (FinalFailure 3 (str_exn e3) (Some q3), ?st3\<lparr>cypher := Some q3\<rparr>, w3)"
    using l1 l2 l3 by (simp add: run_question_def)
  moreover have "attempt (?st3\<lparr>cypher := Some q3\<rparr>) = 3" by simp
  moreover have "queries w3 = queries w @ [q1, q2, q3]" using k3 kv2 by simp
  moreover have "db (length (queries w) + 1) q2 = Inl e2" using d2 kv1 by simp
  moreover have "db (length (queries w) + 2) q3 = Inl e3" using d3 kv2 by simp
  moreover have "previous_attempts (?st3\<lparr>cypher := Some q3\<rparr>)
                   = [attempt_record 1 q1 (str_exn e1), attempt_record 2 q2 (str_exn e2)]"
    by (simp add: numeral_2_eq_2)
  ultimately show ?thesis using d1 by blast
qed

lemma loop_records_numbered:
  assumes "\<forall>k < length (previous_attempts st). \<exists>c e. previous_attempts st ! k = attempt_record (Suc k) c e"
    and "length (previous_attempts st) + 1 = attempt st"
  shows "\<forall>k < length (previous_attempts (fst (snd (retry_loop llm db question schema st w)))).
           \<exists>c e. previous_attempts (fst (snd (retry_loop llm db question schema st w))) ! k
                    = attempt_record (Suc k) c e"
  using assms
proof (induction st w rule: loop_induct[where llm=llm and db=db and question=question and schema=schema])
  case (exit st w)
  then show ?case by (simp add: loop_exit)
next
  case (success st w fin c1 w1)
  then show ?case by (simp add: loop_success)
next
  case (final st w e c1 w1)
  then show ?case by (simp add: loop_final)
next
  case (no_initial st w e w1)
  then show ?case by (simp add: loop_no_initial)
next
  case (continue st w e c w1 imp w2)
  have "\<forall>k < length (previous_attempts (next_session st c e imp)).
          \<exists>c' e'. previous_attempts (next_session st c e imp) ! k = attempt_record (Suc k) c' e'"
  proof (intro allI impI)
    fix k assume k: "k < length (previous_attempts (next_session st c e imp))"
    show "\<exists>c' e'. previous_attempts (next_session st c e imp) ! k = attempt_record (Suc k) c' e'"
    proof (cases "k < length (previous_attempts st)")
      case True
      with continue(5) show ?thesis by (simp add: nth_append)
    next
      case False
      with k have "k = length (previous_attempts st)" by simp
      with continue(6) have "previous_attempts (next_session st c e imp) ! k
                               = attempt_record (Suc k) c e" by (simp add: nth_append)
      then show ?thesis by blast
    qed
  qed
  moreover have "length (previous_attempts (next_session st c e imp)) + 1
                   = attempt (next_session st c e imp)"
    using continue(6) by simp
  ultimately show ?case using continue(4) loop_continue[OF continue(1-3)] by simp
qed

text \<open>Two scripted sessions in which every execution fails: one whose generations
  are scripted one by one, and one whose service answers every generation prompt.\<close>

lemma three_failures_run:
  "run_question
     (scripted_llm [Inr ''```A```'', Inl (ServiceError ''down''), Inr ''```B```'',
                    Inl (ServiceError ''down''), Inr ''```C```''])
     (scripted_db []) ''q'' ''s'' None io0 =
   (FinalFailure 3 ''no answer'' (Some ''C;''),
    \<lparr>attempt = 3,
       previous_attempts = [''Attempt 1: A; (Error: no answer)'',
                            ''Attempt 2: B; (Error: no answer)''],
       cypher = Some ''C;''\<rparr>,
    \<lparr>prompts = [GeneratePrompt ''q'' ''s'' None, ImprovePrompt ''A;'' ''no answer'' ''s'',
                GeneratePrompt ''q'' ''s'' (Some ''Attempt 1: A; (Error: no answer)''),
                ImprovePrompt ''B;'' ''no answer'' ''s'',
                GeneratePrompt ''q'' ''s''
                  (Some (''Attempt 1: A; (Error: no answer)'' @ [CHR 0x0A] @
                         ''Attempt 2: B; (Error: no answer)''))],
       queries = [''A;'', ''B;'', ''C;'']\<rparr>)"
  by code_simp

lemma always_generates:
  "\<forall>prev w1. \<exists>q. fst (generate_enhanced_cypher
                         (answering_llm (Inr ''```A```'') (Inl (ServiceError ''down'')))
                         ''q'' ''s'' prev w1) = Inr q"
proof -
  have ex: "extract_cypher_from_response ''```A```'' = Inr ''A''" by code_simp
  have va: "validate_cypher_query ''A'' = Inr ''A;''" by code_simp
  show ?thesis
    by (simp add: generate_enhanced_cypher_def get_openai_response_def answering_llm_def
                  Let_def ex va)
qed

lemma never_executes: "\<forall>n q. isl (scripted_db [] n q)"
  by (simp add: scripted_db_def)

lemma always_failing_run:
  "run_question (answering_llm (Inr ''```A```'') (Inl (ServiceError ''down'')))
     (scripted_db []) ''q'' ''s'' None io0 =
   (FinalFailure 3 ''no answer'' (Some ''A;''),
    \<lparr>attempt = 3,
       previous_attempts = [''Attempt 1: A; (Error: no answer)'',
                            ''Attempt 2: A; (Error: no answer)''],
       cypher = Some ''A;''\<rparr>,
    \<lparr>prompts = [GeneratePrompt ''q'' ''s'' None, ImprovePrompt ''A;'' ''no answer'' ''s'',
                GeneratePrompt ''q'' ''s'' (Some ''Attempt 1: A; (Error: no answer)''),
                ImprovePrompt ''A;'' ''no answer'' ''s'',
                GeneratePrompt ''q'' ''s''
                  (Some (''Attempt 1: A; (Error: no answer)'' @ [CHR 0x0A] @
                         ''Attempt 2: A; (Error: no answer)''))],
       queries = [''A;'', ''A;'', ''A;'']\<rparr>)"
  by code_simp

section \<open>The validator\<close>

text \<open>
  Claim C2. A query that contains a denylisted keyword (\<open>DROP\<close>, \<open>DELETE\<close>, \<open>CREATE\<close>,
  \<open>SET\<close>, \<open>REMOVE\<close>, \<open>MERGE\<close>, or \<open>DETACH DELETE\<close>) in any letter case, standing on its own
  between word boundaries, makes \<open>validate_cypher_query\<close> raise its \<open>ValueError\<close>; a query
  that contains none is accepted, and the result ends with \<open>;\<close>.
\<close>

theorem validate_denylist:
  "(mutating s \<longrightarrow> (\<exists>m. validate_cypher_query s = Inl (ValueError m))) \<and>
   (\<not> mutating s \<longrightarrow> (\<exists>r. validate_cypher_query s = Inr r \<and> endswith r '';''))"
  using validate_Inl[of s] endswith_normalised[of s] by (auto simp: validate_Inr_iff)

theorem validate_denylist_witness:
  "mutating ''match (n) Detach  delete n'' \<and>
   (\<exists>m. validate_cypher_query ''match (n) Detach  delete n'' = Inl (ValueError m)) \<and>
   \<not> mutating ''RETURN 1 '' \<and>
   (\<exists>r. validate_cypher_query ''RETURN 1 '' = Inr r \<and> endswith r '';'')"
proof -
  have a: "mutating ''match (n) Detach  delete n''" by code_simp
  have b: "\<not> mutating ''RETURN 1 ''" by code_simp
  from a b validate_denylist[of "''match (n) Detach  delete n''"] validate_denylist[of "''RETURN 1 ''"]
  show ?thesis by blast
qed

text \<open>
  Claim C9. A query that ends with \<open>;\<close>, contains no denylisted keyword and has no
  whitespace at either end is returned unchanged; and whatever \<open>validate_cypher_query\<close>
  returns, it returns again when applied to it.
\<close>

theorem validate_idempotent:
  "(endswith s '';'' \<and> \<not> mutating s \<and> no_surrounding_space s \<longrightarrow> validate_cypher_query s = Inr s) \<and>
   (validate_cypher_query s = Inr r \<longrightarrow> validate_cypher_query r = Inr r)"
proof -
  have "validate_cypher_query s = Inr s"
    if "endswith s '';''" "\<not> mutating s" "no_surrounding_space s"
    using that strip_id[OF that(3)] by (simp add: validate_Inr_iff normalised_def)
  moreover have "validate_cypher_query r = Inr r" if "validate_cypher_query s = Inr r"
    using that mutating_normalised[of s] normalised_fixed[of s] by (auto simp: validate_Inr_iff)
  ultimately show ?thesis by blast
qed

theorem validate_idempotent_witness:
  "endswith ''RETURN 1;'' '';'' \<and> \<not> mutating ''RETURN 1;'' \<and>
   no_surrounding_space ''RETURN 1;'' \<and>
   validate_cypher_query ''RETURN 1;'' = Inr ''RETURN 1;'' \<and>
   validate_cypher_query '' RETURN 1 '' = Inr ''RETURN 1;''"
proof -
  have a: "endswith ''RETURN 1;'' '';''" by code_simp
  have b: "\<not> mutating ''RETURN 1;''" by code_simp
  have c: "no_surrounding_space ''RETURN 1;''" by code_simp
  have d: "validate_cypher_query '' RETURN 1 '' = Inr ''RETURN 1;''" by code_simp
  from a b c d validate_idempotent[of "''RETURN 1;''" "''RETURN 1;''"]
    validate_idempotent[of "'' RETURN 1 ''" "''RETURN 1;''"]
  show ?thesis by blast
qed

section \<open>The extractor\<close>

text \<open>
  Claim C6, as the code has it. (1) When the first fence of the response opens a block
  \<open>```tag X ```\<close>, where the tag is \<open>cypher\<close> or \<open>neo4j\<close> in any letter case or absent and
  \<open>X\<close> runs to the next fence, \<open>extract_cypher_from_response\<close> returns \<open>X\<close> with the
  whitespace trimmed, whatever stands before and after the block. (2) When the response
  has no fence and its first \<open>MATCH\<close> stands at \<open>i\<close>, the result is a span of the response
  that begins at that \<open>MATCH\<close>, trimmed. Let \<open>j\<close> be the first position after the keyword at
  which a \<open>RETURN\<close>, a \<open>;\<close> or a blank line begins or the response ends: when a \<open>;\<close> stands
  at \<open>j\<close>, the span runs through that \<open>;\<close>; when a blank line begins at \<open>j\<close>, the span ends
  before it; when \<open>j\<close> is the end of the response, the span is the rest of the response.
\<close>

theorem extract_round_trip:
  "(\<not> contains fence (pre @ ''``'') \<and> tag_ok tag X \<and> \<not> contains fence (X @ ''``'')
      \<longrightarrow> extract_cypher_from_response (pre @ fence @ tag @ X @ fence @ post) = Inr (strip X)) \<and>
   (\<not> contains fence s \<and> first_ci_at ''MATCH'' s i
      \<longrightarrow> (\<exists>e. i + 5 \<le> e \<and> e \<le> length s \<and>
               extract_cypher_from_response s = Inr (strip (slice s i e))) \<and>
          (i + 5 \<le> j \<and> (\<forall>k \<in> set [i + 5..<j]. \<not> terminator_at s k)
             \<longrightarrow> (ci_at '';'' s j \<longrightarrow> extract_cypher_from_response s = Inr (slice s i (j + 1))) \<and>
                 (ci_at [CHR 0x0A, CHR 0x0A] s j
                    \<longrightarrow> extract_cypher_from_response s = Inr (strip (slice s i j))) \<and>
                 (j = length s \<longrightarrow> extract_cypher_from_response s = Inr (strip (drop i s)))))"
  using extract_fenced[of pre tag X post] extract_match_some[of s i]
    extract_match_semicolon[of s i j] extract_match_blank[of s i j] extract_match_end[of s i]
  by blast

theorem extract_round_trip_witness:
  "\<not> contains fence (''Here: '' @ ''``'') \<and> tag_ok ''Cypher'' '' MATCH (n) RETURN n '' \<and>
   \<not> contains fence ('' MATCH (n) RETURN n '' @ ''``'') \<and>
   extract_cypher_from_response ''Here: ```Cypher MATCH (n) RETURN n ``` done''
     = Inr ''MATCH (n) RETURN n'' \<and>
   \<not> contains fence ''Use MATCH (n) WHERE n.x = 1; thanks'' \<and>
   first_ci_at ''MATCH'' ''Use MATCH (n) WHERE n.x = 1; thanks'' 4 \<and>
   (\<exists>e. 4 + 5 \<le> e \<and> e \<le> length ''Use MATCH (n) WHERE n.x = 1; thanks'' \<and>
        extract_cypher_from_response ''Use MATCH (n) WHERE n.x = 1; thanks''
          = Inr (strip (slice ''Use MATCH (n) WHERE n.x = 1; thanks'' 4 e))) \<and>
   list_all (\<lambda>k. \<not> terminator_at ''Use MATCH (n) WHERE n.x = 1; thanks'' k) [4 + 5..<27] \<and>
   ci_at '';'' ''Use MATCH (n) WHERE n.x = 1; thanks'' 27 \<and>
   extract_cypher_from_response ''Use MATCH (n) WHERE n.x = 1; thanks''
     = Inr ''MATCH (n) WHERE n.x = 1;'' \<and>
   \<not> contains fence (''MATCH (n)'' @ [CHR 0x0A, CHR 0x0A] @ ''more'') \<and>
   first_ci_at ''MATCH'' (''MATCH (n)'' @ [CHR 0x0A, CHR 0x0A] @ ''more'') 0 \<and>
   list_all (\<lambda>k. \<not> terminator_at (''MATCH (n)'' @ [CHR 0x0A, CHR 0x0A] @ ''more'') k) [0 + 5..<9] \<and>
   ci_at [CHR 0x0A, CHR 0x0A] (''MATCH (n)'' @ [CHR 0x0A, CHR 0x0A] @ ''more'') 9 \<and>
   extract_cypher_from_response (''MATCH (n)'' @ [CHR 0x0A, CHR 0x0A] @ ''more'') = Inr ''MATCH (n)'' \<and>
   \<not> contains fence ''see: match (n) '' \<and>
   first_ci_at ''MATCH'' ''see: match (n) '' 5 \<and>
   list_all (\<lambda>k. \<not> terminator_at ''see: match (n) '' k) [5 + 5..<length ''see: match (n) ''] \<and>
   extract_cypher_from_response ''see: match (n) '' = Inr ''match (n)''"
proof -
  let ?s1 = "''Use MATCH (n) WHERE n.x = 1; thanks''"
  let ?s2 = "''MATCH (n)'' @ [CHR 0x0A, CHR 0x0A] @ ''more''"
  let ?s3 = "''see: match (n) ''"
  have a: "\<not> contains fence (''Here: '' @ ''``'')" by code_simp
  have b: "tag_ok ''Cypher'' '' MATCH (n) RETURN n ''" by code_simp
  have c: "\<not> contains fence ('' MATCH (n) RETURN n '' @ ''``'')" by code_simp
  have d: "strip '' MATCH (n) RETURN n '' = ''MATCH (n) RETURN n''" by code_simp
  have t: "''Here: '' @ fence @ ''Cypher'' @ '' MATCH (n) RETURN n '' @ fence @ '' done''
             = ''Here: ```Cypher MATCH (n) RETURN n ``` done''"
    by (simp add: fence_def)
  have e1: "\<not> contains fence ?s1" by code_simp
  have f1: "first_ci_at ''MATCH'' ?s1 4" by code_simp
  have h1: "list_all (\<lambda>k. \<not> terminator_at ?s1 k) [4 + 5..<27]" by code_simp
  have g1: "ci_at '';'' ?s1 27" by code_simp
  have k1: "slice ?s1 4 (27 + 1) = ''MATCH (n) WHERE n.x = 1;''" by code_simp
  have e2: "\<not> contains fence ?s2" by code_simp
  have f2: "first_ci_at ''MATCH'' ?s2 0" by code_simp
  have h2: "list_all (\<lambda>k. \<not> terminator_at ?s2 k) [0 + 5..<9]" by code_simp
  have g2: "ci_at [CHR 0x0A, CHR 0x0A] ?s2 9" by code_simp
  have k2: "strip (slice ?s2 0 9) = ''MATCH (n)''" by code_simp
  have e3: "\<not> contains fence ?s3" by code_simp
  have f3: "first_ci_at ''MATCH'' ?s3 5" by code_simp
  have h3: "list_all (\<lambda>k. \<not> terminator_at ?s3 k) [5 + 5..<length ?s3]" by code_simp
  have k3: "strip (drop 5 ?s3) = ''match (n)''" by code_simp
  have i1: "(4::nat) + 5 \<le> 27" and i2: "(0::nat) + 5 \<le> 9" by simp_all
  from h1 have h1': "\<forall>k \<in> set [4 + 5..<27]. \<not> terminator_at ?s1 k" by (simp only: list_all_iff)
  from h2 have h2': "\<forall>k \<in> set [0 + 5..<9]. \<not> terminator_at ?s2 k" by (simp only: list_all_iff)
  from h3 have h3': "\<forall>k \<in> set [5 + 5..<length ?s3]. \<not> terminator_at ?s3 k"
    by (simp only: list_all_iff)
  from extract_round_trip[of "''Here: ''" "''Cypher''" "'' MATCH (n) RETURN n ''" "'' done''"
        ?s1 4 27] a b c e1 f1 g1 h1' i1
  have r1: "extract_cypher_from_response
          (''Here: '' @ fence @ ''Cypher'' @ '' MATCH (n) RETURN n '' @ fence @ '' done'')
          = Inr (strip '' MATCH (n) RETURN n '')"
    and r2: "\<exists>e. 4 + 5 \<le> e \<and> e \<le> length ?s1 \<and>
          extract_cypher_from_response ?s1 = Inr (strip (slice ?s1 4 e))"
    and r3: "extract_cypher_from_response ?s1 = Inr (slice ?s1 4 (27 + 1))"
    by blast+
  from extract_round_trip[of "[]" "[]" "[]" "[]" ?s2 0 9] e2 f2 g2 h2' i2
  have r4: "extract_cypher_from_response ?s2 = Inr (strip (slice ?s2 0 9))" by blast
  from extract_round_trip[of "[]" "[]" "[]" "[]" ?s3 5 "length ?s3"] e3 f3 h3'
  have r5: "extract_cypher_from_response ?s3 = Inr (strip (drop 5 ?s3))"
    using ci_at_length[of "''MATCH''" ?s3 5] f3 by (simp add: first_ci_at_def)
  from r1 have r1': "extract_cypher_from_response ''Here: ```Cypher MATCH (n) RETURN n ``` done''
     = Inr ''MATCH (n) RETURN n''" by (simp only: d t)
  from r3 have r3': "extract_cypher_from_response ?s1 = Inr ''MATCH (n) WHERE n.x = 1;''"
    by (simp only: k1)
  from r4 have r4': "extract_cypher_from_response ?s2 = Inr ''MATCH (n)''" by (simp only: k2)
  from r5 have r5': "extract_cypher_from_response ?s3 = Inr ''match (n)''" by (simp only: k3)
  show ?thesis
    by (intro conjI a b c r1' e1 f1 r2 h1 g1 r3' e2 f2 h2 g2 r4' e3 f3 h3 r5')
qed

text \<open>A single statement, with no fence, whose \<open>WHERE\<close> clause has a \<open>;\<close> inside a quoted
  name: the match ends at the \<open>;\<close>, before the \<open>RETURN\<close>.\<close>

theorem match_span_cut_short:
  "\<not> contains fence ''MATCH (n) WHERE n.`a;b` = 1 RETURN n'' \<and>
   first_ci_at ''MATCH'' ''MATCH (n) WHERE n.`a;b` = 1 RETURN n'' 0 \<and>
   ci_at ''RETURN'' ''MATCH (n) WHERE n.`a;b` = 1 RETURN n'' 28 \<and>
   slice ''MATCH (n) WHERE n.`a;b` = 1 RETURN n'' 0 (28 + 6) = ''MATCH (n) WHERE n.`a;b` = 1 RETURN'' \<and>
   extract_cypher_from_response ''MATCH (n) WHERE n.`a;b` = 1 RETURN n''
     = Inr ''MATCH (n) WHERE n.`a;'' \<and>
   extract_cypher_from_response ''MATCH (n) WHERE n.`a;b` = 1 RETURN n''
     \<noteq> Inr ''MATCH (n) WHERE n.`a;b` = 1 RETURN''"
  by code_simp

text \<open>
  Claim C10. The first rule applies to a block without a tag as to one tagged \<open>cypher\<close> or
  \<open>neo4j\<close> (in any letter case): when the first fence of the response opens the block and
  \<open>X\<close> runs to the next fence, the result is \<open>X\<close> trimmed, whatever prose stands before
  the block and whatever follows it, further fenced blocks included. (A block without a
  tag is one whose contents do not begin with one of the two tag words.)
\<close>

theorem first_fenced_block:
  assumes "\<not> contains fence (pre @ ''``'')" and "\<not> contains fence (X @ ''``'')"
  shows "(\<not> ci_at ''cypher'' X 0 \<and> \<not> ci_at ''neo4j'' X 0
            \<longrightarrow> extract_cypher_from_response (pre @ fence @ X @ fence @ post) = Inr (strip X)) \<and>
         (map lower tag = ''cypher'' \<or> map lower tag = ''neo4j''
            \<longrightarrow> extract_cypher_from_response (pre @ fence @ tag @ X @ fence @ post) = Inr (strip X))"
proof -
  have "extract_cypher_from_response (pre @ fence @ X @ fence @ post) = Inr (strip X)"
    if "\<not> ci_at ''cypher'' X 0 \<and> \<not> ci_at ''neo4j'' X 0"
    using extract_fenced[OF assms(1) _ assms(2), of "[]" post] that unfolding tag_ok_def by simp
  moreover have "extract_cypher_from_response (pre @ fence @ tag @ X @ fence @ post) = Inr (strip X)"
    if "map lower tag = ''cypher'' \<or> map lower tag = ''neo4j''"
    using extract_fenced[OF assms(1) _ assms(2), of tag post] that unfolding tag_ok_def by blast
  ultimately show ?thesis by blast
qed

theorem first_fenced_block_witness:
  "\<not> contains fence (''Try '' @ ''``'') \<and> \<not> contains fence ('' RETURN 1 '' @ ''``'') \<and>
   \<not> ci_at ''cypher'' '' RETURN 1 '' 0 \<and> \<not> ci_at ''neo4j'' '' RETURN 1 '' 0 \<and>
   map lower ''NEO4J'' = ''neo4j'' \<and>
   extract_cypher_from_response ''Try ``` RETURN 1 ``` or ```RETURN 2``` MATCH (n) RETURN n''
     = Inr ''RETURN 1'' \<and>
   extract_cypher_from_response ''Try ```NEO4J RETURN 1 ``` or ```RETURN 2``` MATCH (n) RETURN n''
     = Inr ''RETURN 1''"
proof -
  have a: "\<not> contains fence (''Try '' @ ''``'')" by code_simp
  have b: "\<not> contains fence ('' RETURN 1 '' @ ''``'')" by code_simp
  have c: "\<not> ci_at ''cypher'' '' RETURN 1 '' 0 \<and> \<not> ci_at ''neo4j'' '' RETURN 1 '' 0" by code_simp
  have d: "map lower ''NEO4J'' = ''neo4j''" by code_simp
  have e: "strip '' RETURN 1 '' = ''RETURN 1''" by code_simp
  have t1: "''Try '' @ fence @ '' RETURN 1 '' @ fence @ '' or ```RETURN 2``` MATCH (n) RETURN n''
              = ''Try ``` RETURN 1 ``` or ```RETURN 2``` MATCH (n) RETURN n''"
    by (simp add: fence_def)
  have t2: "''Try '' @ fence @ ''NEO4J'' @ '' RETURN 1 '' @ fence @ '' or ```RETURN 2``` MATCH (n) RETURN n''
              = ''Try ```NEO4J RETURN 1 ``` or ```RETURN 2``` MATCH (n) RETURN n''"
    by (simp add: fence_def)
  from first_fenced_block[OF a b, of "'' or ```RETURN 2``` MATCH (n) RETURN n''" "''NEO4J''"] c d
  have "extract_cypher_from_response
          (''Try '' @ fence @ '' RETURN 1 '' @ fence @ '' or ```RETURN 2``` MATCH (n) RETURN n'')
          = Inr (strip '' RETURN 1 '')"
    and "extract_cypher_from_response
          (''Try '' @ fence @ ''NEO4J'' @ '' RETURN 1 '' @ fence @ '' or ```RETURN 2``` MATCH (n) RETURN n'')
          = Inr (strip '' RETURN 1 '')"
    by simp_all
  then show ?thesis using a b c d by (simp only: e t1 t2) simp
qed

section \<open>The result interpreter\<close>

text \<open>
  Claim C8. For every question and query, on an empty sequence of result rows
  \<open>provide_intelligent_answer\<close> returns the fixed explanatory message and sends nothing
  to the text-generation service: the log of prompts is the one it was given.
\<close>

theorem interpret_empty_no_call:
  "provide_intelligent_answer llm question [] cypher_query w = (no_results_message, w)"
  by (simp add: provide_intelligent_answer_def df_empty_def)

section \<open>The retry controller\<close>

text \<open>
  On the first question of a call no query is bound to \<open>cypher\<close>: when the first call of
  \<open>generate_enhanced_cypher\<close> fails there, the loop ends at once in its "could not
  generate an initial query" exit, with one generation prompt sent, no repair, nothing
  executed and no record appended.
\<close>

lemma unbound_generation_failure:
  assumes "fst (generate_enhanced_cypher llm question schema None w) = Inl e"
  shows "run_question llm db question schema None w =
           (NoInitialQuery (str_exn e),
            \<lparr>attempt = 1, previous_attempts = [], cypher = None\<rparr>,
            w\<lparr>prompts := prompts w @ [GeneratePrompt question schema None]\<rparr>)"
proof -
  let ?st = "\<lparr>attempt = 1, previous_attempts = [], cypher = None\<rparr>"
  have w: "snd (generate_enhanced_cypher llm question schema None w)
             = w\<lparr>prompts := prompts w @ [GeneratePrompt question schema None]\<rparr>"
    by (simp add: generate_enhanced_cypher_def get_openai_response_def Let_def split: sum.splits)
  have "try_block llm db question schema ?st w =
          (Inl (str_exn e), None, w\<lparr>prompts := prompts w @ [GeneratePrompt question schema None]\<rparr>)"
    using assms w
    by (cases "generate_enhanced_cypher llm question schema None w") (simp add: try_block_def)
  then show ?thesis
    unfolding run_question_def
    by (subst loop_no_initial) (simp_all add: max_attempts_def)
qed

text \<open>
  Claim C7 at a concrete session of two questions and \<open>exit\<close>. The first question is answered with
  the query \<open>MATCH (a);\<close>. On the second question the first call of
  \<open>generate_enhanced_cypher\<close> fails: no query was produced for this question, but \<open>cypher\<close>
  is a local of the whole function and still holds the query of the first question. The
  handler records that query as attempt 1, sends it to \<open>improve_cypher_with_context\<close>, and
  the loop goes through all three attempts (three generation prompts, two repair prompts)
  before it ends in the final failure report. The handler's other branch carries the
  comment "Exit retry loop if we can't even generate a first query".
\<close>

theorem later_question_generation_failure:
  "query_neo4j_with_reasoning (scripted_llm [Inr ''```MATCH (a)```'']) (scripted_db [Inr []])
     ''s'' [''first'', ''second'', ''exit''] io0 =
   ([Answered no_results_message [] ''MATCH (a);'',
     FinalFailure 3 ''Failed to generate valid Cypher query: no answer'' (Some ''MATCH (a);'')],
    Some ''MATCH (a);'',
    \<lparr>prompts =
       [GeneratePrompt ''first'' ''s'' None,
        GeneratePrompt ''second'' ''s'' None,
        ImprovePrompt ''MATCH (a);'' ''Failed to generate valid Cypher query: no answer'' ''s'',
        GeneratePrompt ''second'' ''s''
          (Some ''Attempt 1: MATCH (a); (Error: Failed to generate valid Cypher query: no answer)''),
        ImprovePrompt ''MATCH (a);'' ''Failed to generate valid Cypher query: no answer'' ''s'',
        GeneratePrompt ''second'' ''s''
          (Some (''Attempt 1: MATCH (a); (Error: Failed to generate valid Cypher query: no answer)'' @
                 [CHR 0x0A] @
                 ''Attempt 2: MATCH (a); (Error: Failed to generate valid Cypher query: no answer)''))],
       queries = [''MATCH (a);'']\<rparr>)"
  by code_simp

text \<open>
  Claim C3. One question sends at most three statements to the graph database, whatever
  the collaborators answer. And when every generation yields a query and every execution
  fails, the loop makes exactly three executions and ends in its final failure report,
  with the attempt count 3.
\<close>

theorem retry_attempt_bound:
  "length (queries (snd (snd (run_question llm db question schema c0 w))))
     \<le> length (queries w) + 3 \<and>
   ((\<forall>prev w1. \<exists>q. fst (generate_enhanced_cypher llm question schema prev w1) = Inr q) \<and>
    (\<forall>n q. isl (db n q))
      \<longrightarrow> (\<exists>e c st' w'.
             run_question llm db question schema c0 w = (FinalFailure 3 e (Some c), st', w') \<and>
             attempt st' = 3 \<and> length (queries w') = length (queries w) + 3))"
proof -
  have "length (queries (snd (snd (run_question llm db question schema c0 w))))
          \<le> length (queries w) + 3"
    using loop_queries_bound[of llm db question schema
            "\<lparr>attempt = 1, previous_attempts = [], cypher = c0\<rparr>" w]
    by (simp add: run_question_def max_attempts_def)
  moreover have "\<exists>e c st' w'.
             run_question llm db question schema c0 w = (FinalFailure 3 e (Some c), st', w') \<and>
             attempt st' = 3 \<and> length (queries w') = length (queries w) + 3"
    if "\<forall>prev w1. \<exists>q. fst (generate_enhanced_cypher llm question schema prev w1) = Inr q"
      "\<forall>n q. isl (db n q)"
  proof -
    from three_failures[OF that, of c0 w] obtain q1 q2 q3 e3 st' w' where
      "run_question llm db question schema c0 w = (FinalFailure 3 (str_exn e3) (Some q3), st', w')"
      "attempt st' = 3" "queries w' = queries w @ [q1, q2, q3]"
      by blast
    then show ?thesis by (intro exI[of _ "str_exn e3"] exI[of _ q3] exI[of _ st'] exI[of _ w']) simp
  qed
  ultimately show ?thesis by blast
qed

theorem retry_attempt_bound_witness:
  "(\<forall>prev w1. \<exists>q. fst (generate_enhanced_cypher
                          (answering_llm (Inr ''```A```'') (Inl (ServiceError ''down'')))
                          ''q'' ''s'' prev w1) = Inr q) \<and>
   (\<forall>n q. isl (scripted_db [] n q)) \<and>
   (\<exists>e c st' w'.
      run_question (answering_llm (Inr ''```A```'') (Inl (ServiceError ''down'')))
        (scripted_db []) ''q'' ''s'' None io0 = (FinalFailure 3 e (Some c), st', w') \<and>
      attempt st' = 3 \<and> length (queries w') = length (queries io0) + 3)"
  using retry_attempt_bound[of "answering_llm (Inr ''```A```'') (Inl (ServiceError ''down''))"
          "scripted_db []" "''q''" "''s''" None io0]
    always_generates never_executes
  by blast

text \<open>
  Claim C4, as the code has it. The handler appends a record only when another attempt
  follows (the attempt number is below 3 and a query is bound). The \<open>k\<close>-th record of a
  question is \<open>Attempt k: query (Error: message)\<close>; the records are one fewer than the
  attempts made, and never more than two. When every generation yields a query and every
  execution fails, whatever the repairs return, the loop executes three queries \<open>q1\<close>,
  \<open>q2\<close>, \<open>q3\<close> with the errors \<open>e1\<close>, \<open>e2\<close>, \<open>e3\<close>, ends in its final failure report of
  \<open>e3\<close> and \<open>q3\<close>, and leaves exactly the two records of attempts 1 and 2: the third
  failure is reported, not recorded.
\<close>

theorem attempt_records_count:
  assumes "run_question llm db question schema c0 w = (out, st', w')"
  shows "(\<forall>k < length (previous_attempts st').
            \<exists>c e. previous_attempts st' ! k = attempt_record (Suc k) c e) \<and>
         length (previous_attempts st') + 1 = attempt st' \<and> attempt st' \<le> 3 \<and>
         ((\<forall>prev w1. \<exists>q. fst (generate_enhanced_cypher llm question schema prev w1) = Inr q) \<and>
          (\<forall>n q. isl (db n q))
            \<longrightarrow> (\<exists>q1 q2 q3 e1 e2 e3.
                   out = FinalFailure 3 (str_exn e3) (Some q3) \<and>
                   queries w' = queries w @ [q1, q2, q3] \<and>
                   db (length (queries w)) q1 = Inl e1 \<and>
                   db (length (queries w) + 1) q2 = Inl e2 \<and>
                   db (length (queries w) + 2) q3 = Inl e3 \<and>
                   previous_attempts st'
                     = [attempt_record 1 q1 (str_exn e1), attempt_record 2 q2 (str_exn e2)]))"
proof -
  let ?st = "\<lparr>attempt = 1, previous_attempts = [], cypher = c0\<rparr>"
  have r: "retry_loop llm db question schema ?st w = (out, st', w')"
    using assms by (simp add: run_question_def)
  have "\<forall>k < length (previous_attempts st').
            \<exists>c e. previous_attempts st' ! k = attempt_record (Suc k) c e"
    using loop_records_numbered[of ?st llm db question schema w] r by simp
  moreover have "length (previous_attempts st') + 1 = attempt st' \<and> attempt st' \<le> 3"
    using loop_records[of ?st llm db question schema w] r by (simp add: max_attempts_def)
  moreover have "\<exists>q1 q2 q3 e1 e2 e3.
                   out = FinalFailure 3 (str_exn e3) (Some q3) \<and>
                   queries w' = queries w @ [q1, q2, q3] \<and>
                   db (length (queries w)) q1 = Inl e1 \<and>
                   db (length (queries w) + 1) q2 = Inl e2 \<and>
                   db (length (queries w) + 2) q3 = Inl e3 \<and>
                   previous_attempts st'
                     = [attempt_record 1 q1 (str_exn e1), attempt_record 2 q2 (str_exn e2)]"
    if "\<forall>prev w1. \<exists>q. fst (generate_enhanced_cypher llm question schema prev w1) = Inr q"
      "\<forall>n q. isl (db n q)"
    using three_failures[OF that, of c0 w] assms by auto
  ultimately show ?thesis by blast
qed

theorem attempt_records_count_witness:
  "(\<forall>prev w1. \<exists>q. fst (generate_enhanced_cypher
                          (answering_llm (Inr ''```A```'') (Inl (ServiceError ''down'')))
                          ''q'' ''s'' prev w1) = Inr q) \<and>
   (\<forall>n q. isl (scripted_db [] n q)) \<and>
   (\<exists>q1 q2 q3 e1 e2 e3.
      FinalFailure 3 ''no answer'' (Some ''A;'') = FinalFailure 3 (str_exn e3) (Some q3) \<and>
      [''A;'', ''A;'', ''A;''] = [q1, q2, q3] \<and>
      scripted_db [] 0 q1 = Inl e1 \<and> scripted_db [] 1 q2 = Inl e2 \<and> scripted_db [] 2 q3 = Inl e3 \<and>
      [''Attempt 1: A; (Error: no answer)'', ''Attempt 2: A; (Error: no answer)'']
        = [attempt_record 1 q1 (str_exn e1), attempt_record 2 q2 (str_exn e2)])"
  using attempt_records_count[OF always_failing_run] always_generates never_executes
  by (simp add: io0_def numeral_2_eq_2)

text \<open>Three failed executions, with both repairs failing: two records, not three.\<close>

theorem three_failures_two_records:
  "fst (run_question
          (scripted_llm [Inr ''```A```'', Inl (ServiceError ''down''), Inr ''```B```'',
                         Inl (ServiceError ''down''), Inr ''```C```''])
          (scripted_db []) ''q'' ''s'' None io0) = FinalFailure 3 ''no answer'' (Some ''C;'') \<and>
   queries (snd (snd (run_question
          (scripted_llm [Inr ''```A```'', Inl (ServiceError ''down''), Inr ''```B```'',
                         Inl (ServiceError ''down''), Inr ''```C```''])
          (scripted_db []) ''q'' ''s'' None io0))) = [''A;'', ''B;'', ''C;''] \<and>
   length (previous_attempts (fst (snd (run_question
          (scripted_llm [Inr ''```A```'', Inl (ServiceError ''down''), Inr ''```B```'',
                         Inl (ServiceError ''down''), Inr ''```C```''])
          (scripted_db []) ''q'' ''s'' None io0)))) = 2"
  by (simp add: three_failures_run)

text \<open>
  Claim C5. Every statement that one question sends to the graph database is a result of
  \<open>validate_cypher_query\<close>: it contains no denylisted keyword and ends with \<open>;\<close>, whatever
  the collaborators answer.
\<close>

theorem executed_queries_validated:
  assumes "run_question llm db question schema c0 w = (out, st', w')"
  shows "\<forall>q \<in> set (drop (length (queries w)) (queries w')).
           (\<exists>raw. validate_cypher_query raw = Inr q) \<and> \<not> mutating q \<and> endswith q '';''"
proof -
  from loop_queries_validated[of llm db question schema
         "\<lparr>attempt = 1, previous_attempts = [], cypher = c0\<rparr>" w] assms
  obtain qs where qs: "queries w' = queries w @ qs"
      "\<forall>q \<in> set qs. \<exists>raw. validate_cypher_query raw = Inr q"
    by (auto simp: run_question_def)
  have "\<not> mutating q \<and> endswith q '';''" if "validate_cypher_query raw = Inr q" for raw q
    using that mutating_normalised[of raw] endswith_normalised[of raw]
    by (auto simp: validate_Inr_iff)
  with qs show ?thesis by auto
qed

theorem executed_queries_validated_witness:
  "(\<exists>raw. validate_cypher_query raw = Inr ''A;'') \<and> \<not> mutating ''A;'' \<and> endswith ''A;'' '';'' \<and>
   (\<exists>raw. validate_cypher_query raw = Inr ''B;'') \<and> \<not> mutating ''B;'' \<and> endswith ''B;'' '';'' \<and>
   (\<exists>raw. validate_cypher_query raw = Inr ''C;'') \<and> \<not> mutating ''C;'' \<and> endswith ''C;'' '';''"
  using executed_queries_validated[OF three_failures_run]
  by (simp add: io0_def)

text \<open>
  Claim C1 at a concrete session. The first query \<open>MATCH (a);\<close> fails, the repair returns
  the validated query \<open>MATCH (b);\<close>, and the next iteration sends a generation prompt and
  executes what that returns, \<open>MATCH (c);\<close>: the repaired query is never executed.
\<close>

theorem repaired_query_not_executed:
  "improve_cypher_with_context
     (scripted_llm [Inr ''```MATCH (a)```'', Inr ''```MATCH (b)```'', Inr ''```MATCH (c)```''])
     ''MATCH (a);'' ''boom'' ''s''
     \<lparr>prompts = [GeneratePrompt ''q'' ''s'' None], queries = [''MATCH (a);'']\<rparr> =
   (Some ''MATCH (b);'',
    \<lparr>prompts = [GeneratePrompt ''q'' ''s'' None, ImprovePrompt ''MATCH (a);'' ''boom'' ''s''],
       queries = [''MATCH (a);'']\<rparr>) \<and>
   run_question
     (scripted_llm [Inr ''```MATCH (a)```'', Inr ''```MATCH (b)```'', Inr ''```MATCH (c)```''])
     (scripted_db [Inl (ServiceError ''boom''), Inr []]) ''q'' ''s'' None io0 =
   (Answered no_results_message [] ''MATCH (c);'',
    \<lparr>attempt = 2, previous_attempts = [''Attempt 1: MATCH (a); (Error: boom)''],
       cypher = Some ''MATCH (c);''\<rparr>,
    \<lparr>prompts = [GeneratePrompt ''q'' ''s'' None, ImprovePrompt ''MATCH (a);'' ''boom'' ''s'',
                GeneratePrompt ''q'' ''s'' (Some ''Attempt 1: MATCH (a); (Error: boom)'')],
       queries = [''MATCH (a);'', ''MATCH (c);'']\<rparr>)"
  by code_simp

end
